theory Spec2Isabelle
  imports Main
begin

section \<open>The host runtime\<close>

text \<open>
  The engine is a CPython extension. Every value it touches is a \<^verbatim>\<open>PyObject*\<close>: an
  address, modelled as a natural number. A pointer kept in a field may be null, and
  address \<open>0\<close> is the null pointer, as in the C++ source. The result of a host call that
  may fail is an \<open>option\<close>: \<open>None\<close> is the \<^verbatim>\<open>NULL\<close> the call returns.
\<close>

type_synonym obj = nat

definition nullptr :: obj where
  "nullptr = 0"

text \<open>
  What the host computes is a parameter of the model. \<open>call1 H f x\<close> is the result of
  calling the callable \<open>f\<close> on one argument (\<open>None\<close>: the callable raised), \<open>call2\<close> the
  same with two arguments, \<open>is_true H v\<close> the truth value of \<open>v\<close> as
  \<^verbatim>\<open>PyObject_IsTrue\<close> finds it (\<open>None\<close>: the test raised) and \<open>get_iter H v\<close> the
  iterator \<^verbatim>\<open>PyObject_GetIter\<close> returns for \<open>v\<close>. \<open>length_hint H v\<close> is the length hint
  of \<open>v\<close> (\<open>None\<close>: asking for it raised). \<open>jit_ok H\<close> tells whether libgccjit compiles
  the function handed to it. Callables are taken to be functions of their arguments:
  they do not touch the iterators or the reference counts.
\<close>

record host =
  call1 :: "obj \<Rightarrow> obj \<Rightarrow> obj option"
  call2 :: "obj \<Rightarrow> obj \<Rightarrow> obj \<Rightarrow> obj option"
  is_true :: "obj \<Rightarrow> bool option"
  get_iter :: "obj \<Rightarrow> obj option"
  length_hint :: "obj \<Rightarrow> int option"
  jit_ok :: bool

text \<open>
  What a Python iterator does when it is advanced: it yields a value or it raises.
  The state of an iterator is the list of what it has left to do; an iterator with
  nothing left is exhausted and stays so.
\<close>

datatype item = Item obj | Fail

text \<open>
  The mutable part of the host: the reference count \<^verbatim>\<open>ob_refcnt\<close> of every object,
  the state of every iterator, and the error indicator (\<^verbatim>\<open>PyErr_Occurred\<close>).
\<close>

record pystate =
  refcnt :: "obj \<Rightarrow> int"
  iters :: "obj \<Rightarrow> item list"
  err :: bool

definition Py_INCREF :: "obj \<Rightarrow> pystate \<Rightarrow> pystate" where
  "Py_INCREF ob st = st\<lparr>refcnt := (refcnt st)(ob := refcnt st ob + 1)\<rparr>"

definition Py_DECREF :: "obj \<Rightarrow> pystate \<Rightarrow> pystate" where
  "Py_DECREF ob st = st\<lparr>refcnt := (refcnt st)(ob := refcnt st ob - 1)\<rparr>"

definition Py_XDECREF :: "obj \<Rightarrow> pystate \<Rightarrow> pystate" where
  "Py_XDECREF ob st = (if ob = nullptr then st else Py_DECREF ob st)"

definition PyErr_Clear :: "pystate \<Rightarrow> pystate" where
  "PyErr_Clear st = st\<lparr>err := False\<rparr>"

text \<open>
  \<^verbatim>\<open>PyIter_Next\<close>: a new reference to the next value, or \<^verbatim>\<open>NULL\<close>: without an error
  when the iterator is exhausted, with the error indicator set when it raised.
\<close>

definition PyIter_Next :: "obj \<Rightarrow> pystate \<Rightarrow> obj option \<times> pystate" where
  "PyIter_Next iter st =
     (case iters st iter of
        [] \<Rightarrow> (None, st)
      | Item v # rest \<Rightarrow> (Some v, Py_INCREF v (st\<lparr>iters := (iters st)(iter := rest)\<rparr>))
      | Fail # rest \<Rightarrow> (None, st\<lparr>iters := (iters st)(iter := rest), err := True\<rparr>))"

text \<open>
  \<^verbatim>\<open>PyObject_GetIter\<close>: a new reference to an iterator over the object, or \<^verbatim>\<open>NULL\<close>
  with the error indicator set.
\<close>

definition PyObject_GetIter :: "host \<Rightarrow> obj \<Rightarrow> pystate \<Rightarrow> obj option \<times> pystate" where
  "PyObject_GetIter H ob st =
     (case get_iter H ob of
        None \<Rightarrow> (None, st\<lparr>err := True\<rparr>)
      | Some iter \<Rightarrow> (Some iter, Py_INCREF iter st))"

text \<open>
  \<^verbatim>\<open>PyObject_Not\<close>: \<open>0\<close> when the object is true, \<open>1\<close> when it is false, \<open>-1\<close> with the
  error indicator set when the test raised.
\<close>

definition PyObject_Not :: "host \<Rightarrow> obj \<Rightarrow> pystate \<Rightarrow> int \<times> pystate" where
  "PyObject_Not H ob st =
     (case is_true H ob of
        None \<Rightarrow> (- 1, st\<lparr>err := True\<rparr>)
      | Some b \<Rightarrow> (if b then 0 else 1, st))"

text \<open>
  \<^verbatim>\<open>PyObject_LengthHint(ob, 0)\<close>: the length hint of the object, or \<open>-1\<close> with the
  error indicator set when asking for it raised.
\<close>

definition PyObject_LengthHint :: "host \<Rightarrow> obj \<Rightarrow> pystate \<Rightarrow> int \<times> pystate" where
  "PyObject_LengthHint H ob st =
     (case length_hint H ob of
        None \<Rightarrow> (- 1, st\<lparr>err := True\<rparr>)
      | Some n \<Rightarrow> (n, st))"

text \<open>
  \<^verbatim>\<open>call_function\<close> of utils.h with one argument and with two: a new reference to the
  result, or \<^verbatim>\<open>NULL\<close> with the error indicator set.
\<close>

definition call_function :: "host \<Rightarrow> obj \<Rightarrow> obj \<Rightarrow> pystate \<Rightarrow> obj option \<times> pystate" where
  "call_function H function arg st =
     (case call1 H function arg of
        None \<Rightarrow> (None, st\<lparr>err := True\<rparr>)
      | Some r \<Rightarrow> (Some r, Py_INCREF r st))"

definition call_function2 ::
    "host \<Rightarrow> obj \<Rightarrow> obj \<Rightarrow> obj \<Rightarrow> pystate \<Rightarrow> obj option \<times> pystate" where
  "call_function2 H function arg1 arg2 st =
     (case call2 H function arg1 arg2 of
        None \<Rightarrow> (None, st\<lparr>err := True\<rparr>)
      | Some r \<Rightarrow> (Some r, Py_INCREF r st))"

text \<open>
  Whether the host can allocate is a parameter too: \<open>unicode_ok s\<close> for the string \<open>s\<close>,
  \<open>list_ok n\<close> for a list of \<open>n\<close> slots, \<open>tuple_ok ix\<close> for the tuple made for the step
  \<open>ix\<close>, \<open>append_ok n\<close> for the growth of a list of \<open>n\<close> elements by one.
\<close>

record allocator =
  unicode_ok :: "string \<Rightarrow> bool"
  list_ok :: "nat \<Rightarrow> bool"
  tuple_ok :: "nat \<Rightarrow> bool"
  append_ok :: "nat \<Rightarrow> bool"

text \<open>
  A list the engine builds is kept by its elements. \<^verbatim>\<open>PyList_New(n)\<close> returns a new
  list of \<open>n\<close> null slots, or \<^verbatim>\<open>NULL\<close> with the error indicator set. \<^verbatim>\<open>PyList_Append\<close> returns \<open>0\<close> and
  takes a reference of its own on the element, or returns \<open>-1\<close> with the error
  indicator set and leaves the list as it was. When the only reference on a list is
  released the list is deallocated and releases its elements.
\<close>

definition PyList_New :: "allocator \<Rightarrow> nat \<Rightarrow> pystate \<Rightarrow> obj list option \<times> pystate" where
  "PyList_New A n st =
     (if list_ok A n then (Some (replicate n nullptr), st) else (None, st\<lparr>err := True\<rparr>))"

definition PyList_Append ::
    "allocator \<Rightarrow> obj list \<Rightarrow> obj \<Rightarrow> pystate \<Rightarrow> int \<times> obj list \<times> pystate" where
  "PyList_Append A list ob st =
     (if append_ok A (length list) then (0, list @ [ob], Py_INCREF ob st)
      else (- 1, list, st\<lparr>err := True\<rparr>))"

definition list_dealloc :: "obj list \<Rightarrow> pystate \<Rightarrow> pystate" where
  "list_dealloc list st = fold Py_DECREF list st"

section \<open>node.h: one step of a fused iterator\<close>

datatype node_kind = kind_map | kind_filter

text \<open>The tag as the dense index the dispatch tables use: \<open>map = 0\<close>, \<open>filter = 1\<close>.\<close>

fun kind_index :: "node_kind \<Rightarrow> nat" where
  "kind_index kind_map = 0"
| "kind_index kind_filter = 1"

record node =
  m_function :: obj
  m_kind :: node_kind

text \<open>\<^verbatim>\<open>node(PyObject* function, node_kind kind)\<close>.\<close>

definition node_ctor :: "obj \<Rightarrow> node_kind \<Rightarrow> pystate \<Rightarrow> node \<times> pystate" where
  "node_ctor function kind st =
     (\<lparr>m_function = function, m_kind = kind\<rparr>, Py_INCREF function st)"

text \<open>\<^verbatim>\<open>node(const node& cpfrom)\<close>.\<close>

definition node_copy_ctor :: "node \<Rightarrow> pystate \<Rightarrow> node \<times> pystate" where
  "node_copy_ctor cpfrom st =
     (\<lparr>m_function = m_function cpfrom, m_kind = m_kind cpfrom\<rparr>,
      Py_INCREF (m_function cpfrom) st)"

text \<open>
  \<^verbatim>\<open>node(node&& mvfrom)\<close>: the new node, and the node moved from, whose pointer is now
  null.
\<close>

definition node_move_ctor :: "node \<Rightarrow> pystate \<Rightarrow> (node \<times> node) \<times> pystate" where
  "node_move_ctor mvfrom st =
     ((\<lparr>m_function = m_function mvfrom, m_kind = m_kind mvfrom\<rparr>,
       mvfrom\<lparr>m_function := nullptr\<rparr>), st)"

text \<open>\<^verbatim>\<open>node& operator=(const node& cpfrom)\<close>, on the node \<open>this\<close>.\<close>

definition node_copy_assign :: "node \<Rightarrow> node \<Rightarrow> pystate \<Rightarrow> node \<times> pystate" where
  "node_copy_assign this cpfrom st =
     (let this1 = this\<lparr>m_function := m_function cpfrom\<rparr>;
          st1 = Py_INCREF (m_function this1) st;
          this2 = this1\<lparr>m_kind := m_kind cpfrom\<rparr>
      in (this2, st1))"

text \<open>\<^verbatim>\<open>node& operator=(node&& mvfrom)\<close>: the node assigned to and the node moved from.\<close>

definition node_move_assign :: "node \<Rightarrow> node \<Rightarrow> pystate \<Rightarrow> (node \<times> node) \<times> pystate" where
  "node_move_assign this mvfrom st =
     (let this1 = this\<lparr>m_function := m_function mvfrom\<rparr>;
          mvfrom1 = mvfrom\<lparr>m_function := nullptr\<rparr>;
          this2 = this1\<lparr>m_kind := m_kind mvfrom\<rparr>
      in ((this2, mvfrom1), st))"

text \<open>\<^verbatim>\<open>~node()\<close>.\<close>

definition node_dtor :: "node \<Rightarrow> pystate \<Rightarrow> pystate" where
  "node_dtor this st = Py_XDECREF (m_function this) st"

text \<open>The setter \<^verbatim>\<open>void function(PyObject* new_function)\<close>.\<close>

definition node_set_function :: "node \<Rightarrow> obj \<Rightarrow> pystate \<Rightarrow> node \<times> pystate" where
  "node_set_function this new_function st =
     (let st1 = Py_XDECREF (m_function this) st;
          st2 = Py_INCREF new_function st1
      in (this\<lparr>m_function := new_function\<rparr>, st2))"

section \<open>The fused iterator\<close>

record fused =
  m_steps :: "node list"
  m_iter :: obj

text \<open>
  How the \<^verbatim>\<open>for\<close> loop over \<^verbatim>\<open>m_steps\<close> is left: by \<^verbatim>\<open>return nullptr\<close>, by the
  \<^verbatim>\<open>break\<close> of a filter that masks the element (\<^verbatim>\<open>filtered\<close> is then true), or at its
  end, with the locals \<^verbatim>\<open>element\<close> and \<^verbatim>\<open>filtered\<close>.
\<close>

datatype for_exit = ForReturn pystate | ForBreak pystate | ForDone obj bool pystate

text \<open>
  The \<^verbatim>\<open>for\<close> loop of \<^verbatim>\<open>interpreted_next\<close> and of \<^verbatim>\<open>interpreted_to_list\<close>. The two
  versions of the source differ in one statement: at \<^verbatim>\<open>map_label\<close> the version of
  \<^verbatim>\<open>src/unnamed/part_000\<close> has \<^verbatim>\<open>Py_DECREF(element)\<close> before \<^verbatim>\<open>element = applied\<close>,
  the version of \<^verbatim>\<open>src/gotenks/fused.cc\<close> has not. \<open>decref_on_map\<close> tells which version
  runs.
\<close>

fun for_steps ::
    "bool \<Rightarrow> host \<Rightarrow> node list \<Rightarrow> obj \<Rightarrow> bool \<Rightarrow> pystate \<Rightarrow> for_exit" where
  "for_steps decref_on_map H [] element filtered st = ForDone element filtered st"
| "for_steps decref_on_map H (step # rest) element filtered st =
     (case call_function H (m_function step) element st of
        (None, st1) \<Rightarrow> ForReturn (Py_DECREF element st1)
      | (Some applied, st1) \<Rightarrow>
          (case m_kind step of
             kind_map \<Rightarrow>
               for_steps decref_on_map H rest applied filtered
                 (if decref_on_map then Py_DECREF element st1 else st1)
           | kind_filter \<Rightarrow>
               (case PyObject_Not H applied st1 of
                  (should_mask, st2) \<Rightarrow>
                    let st3 = Py_DECREF applied st2 in
                    if should_mask < 0 then ForReturn (Py_DECREF element st3)
                    else if should_mask \<noteq> 0 then ForBreak (Py_DECREF element st3)
                    else for_steps decref_on_map H rest element False st3)))"

text \<open>The state an exit of the loop carries.\<close>

fun exit_state :: "for_exit \<Rightarrow> pystate" where
  "exit_state (ForReturn st) = st"
| "exit_state (ForBreak st) = st"
| "exit_state (ForDone element filtered st) = st"

lemma iters_Py_INCREF [simp]: "iters (Py_INCREF ob st) = iters st"
  by (simp add: Py_INCREF_def)

lemma iters_Py_DECREF [simp]: "iters (Py_DECREF ob st) = iters st"
  by (simp add: Py_DECREF_def)

lemma iters_call_function [simp]: "iters (snd (call_function H f x st)) = iters st"
  by (simp add: call_function_def split: option.splits)

lemma iters_PyObject_Not [simp]: "iters (snd (PyObject_Not H ob st)) = iters st"
  by (simp add: PyObject_Not_def split: option.splits)

lemma iters_for_steps [simp]:
  "iters (exit_state (for_steps d H steps element filtered st)) = iters st"
proof (induction steps arbitrary: element filtered st)
  case Nil
  show ?case by simp
next
  case (Cons step rest)
  have c: "iters (snd (call_function H (m_function step) element st)) = iters st"
    by simp
  show ?case
  proof (cases "call_function H (m_function step) element st")
    case (Pair r st1)
    with c have i1: "iters st1 = iters st" by simp
    show ?thesis
    proof (cases r)
      case None
      with Pair i1 show ?thesis by simp
    next
      case (Some applied)
      show ?thesis
      proof (cases "m_kind step")
        case kind_map
        with Pair Some i1 Cons.IH show ?thesis by simp
      next
        case kind_filter
        obtain should_mask st2 where n: "PyObject_Not H applied st1 = (should_mask, st2)"
          by (cases "PyObject_Not H applied st1")
        have "iters (snd (PyObject_Not H applied st1)) = iters st1" by simp
        with n have i2: "iters st2 = iters st1" by simp
        from Pair Some kind_filter n i1 i2 Cons.IH show ?thesis
          by (simp add: Let_def)
      qed
    qed
  qed
qed

lemma PyIter_Next_shorter:
  "PyIter_Next iter st = (Some element, st1) \<Longrightarrow>
     length (iters st1 iter) < length (iters st iter)"
  by (auto simp: PyIter_Next_def split: list.splits item.splits)

lemma for_steps_after_next_shorter:
  assumes "(x, y) = PyIter_Next iter st" and "x = Some element"
  shows "length (iters (exit_state (for_steps d H steps element filtered y)) iter)
           < length (iters st iter)"
proof -
  from assms have "PyIter_Next iter st = (Some element, y)" by simp
  then have "length (iters y iter) < length (iters st iter)"
    by (rule PyIter_Next_shorter)
  then show ?thesis by simp
qed

text \<open>
  The \<^verbatim>\<open>while\<close> loop of \<^verbatim>\<open>interpreted_next\<close>, entered with the local \<^verbatim>\<open>filtered\<close>:
  \<^verbatim>\<open>while ((element = PyIter_Next(m_iter))) { for ...; if (!filtered) break; }
  return element;\<close>
\<close>

function while_next ::
    "bool \<Rightarrow> host \<Rightarrow> node list \<Rightarrow> obj \<Rightarrow> bool \<Rightarrow> pystate \<Rightarrow> obj option \<times> pystate" where
  "while_next d H steps iter filtered st =
     (case PyIter_Next iter st of
        (None, st1) \<Rightarrow> (None, st1)
      | (Some element, st1) \<Rightarrow>
          (case for_steps d H steps element filtered st1 of
             ForReturn st2 \<Rightarrow> (None, st2)
           | ForBreak st2 \<Rightarrow> while_next d H steps iter True st2
           | ForDone element' filtered' st2 \<Rightarrow>
               if \<not> filtered' then (Some element', st2)
               else while_next d H steps iter filtered' st2))"
  by pat_completeness auto
termination
proof (relation "measure (\<lambda>(d, H, steps, iter, filtered, st). length (iters st iter))")
  show "wf (measure (\<lambda>(d, H, steps, iter, filtered, st). length (iters st iter)))"
    by simp
next
  fix d H steps iter filtered st x y element st2
  assume "(x, y) = PyIter_Next iter st" "x = Some element"
    and "for_steps d H steps element filtered y = ForBreak st2"
  then show "((d, H, steps, iter, True, st2), (d, H, steps, iter, filtered, st))
      \<in> measure (\<lambda>(d, H, steps, iter, filtered, st). length (iters st iter))"
    using for_steps_after_next_shorter [of x y iter st element d H steps filtered]
    by simp
next
  fix d H steps iter filtered st x y element element' filtered' st2
  assume "(x, y) = PyIter_Next iter st" "x = Some element"
    and "for_steps d H steps element filtered y = ForDone element' filtered' st2"
  then show "((d, H, steps, iter, filtered', st2), (d, H, steps, iter, filtered, st))
      \<in> measure (\<lambda>(d, H, steps, iter, filtered, st). length (iters st iter))"
    using for_steps_after_next_shorter [of x y iter st element d H steps filtered]
    by simp
qed

declare while_next.simps [simp del]

text \<open>
  \<^verbatim>\<open>fused::interpreted_next\<close> of \<^verbatim>\<open>src/unnamed/part_000\<close>, and the older one of
  \<^verbatim>\<open>src/gotenks/fused.cc\<close>.
\<close>

definition interpreted_next :: "host \<Rightarrow> fused \<Rightarrow> pystate \<Rightarrow> obj option \<times> pystate" where
  "interpreted_next H self st = while_next True H (m_steps self) (m_iter self) False st"

definition interpreted_next_fused_cc ::
    "host \<Rightarrow> fused \<Rightarrow> pystate \<Rightarrow> obj option \<times> pystate" where
  "interpreted_next_fused_cc H self st =
     while_next False H (m_steps self) (m_iter self) False st"

lemma iters_PyList_Append [simp]:
  "iters (snd (snd (PyList_Append A list ob st))) = iters st"
  by (simp add: PyList_Append_def)

text \<open>
  The \<^verbatim>\<open>while\<close> loop of \<^verbatim>\<open>interpreted_to_list\<close>, entered with the locals \<^verbatim>\<open>out\<close> and
  \<^verbatim>\<open>filtered\<close>. Its \<^verbatim>\<open>for\<close> loop is the one of \<^verbatim>\<open>interpreted_next\<close>, with
  \<^verbatim>\<open>Py_DECREF(out)\<close> added before each \<^verbatim>\<open>return nullptr\<close>. After the \<^verbatim>\<open>for\<close> loop:
  \<^verbatim>\<open>if (!filtered) { PyList_Append(out, element); }\<close>, the result of the call unused;
  after the \<^verbatim>\<open>while\<close> loop: \<^verbatim>\<open>return out\<close>.
\<close>

function while_to_list ::
    "bool \<Rightarrow> host \<Rightarrow> allocator \<Rightarrow> node list \<Rightarrow> obj \<Rightarrow> obj list \<Rightarrow> bool \<Rightarrow> pystate
       \<Rightarrow> obj list option \<times> pystate" where
  "while_to_list d H A steps iter out filtered st =
     (case PyIter_Next iter st of
        (None, st1) \<Rightarrow> (Some out, st1)
      | (Some element, st1) \<Rightarrow>
          (case for_steps d H steps element filtered st1 of
             ForReturn st2 \<Rightarrow> (None, list_dealloc out st2)
           | ForBreak st2 \<Rightarrow> while_to_list d H A steps iter out True st2
           | ForDone element' filtered' st2 \<Rightarrow>
               if \<not> filtered' then
                 (case PyList_Append A out element' st2 of
                    (rc, out', st3) \<Rightarrow> while_to_list d H A steps iter out' filtered' st3)
               else while_to_list d H A steps iter out filtered' st2))"
  by pat_completeness auto
termination
proof (relation
    "measure (\<lambda>(d, H, A, steps, iter, out, filtered, st). length (iters st iter))")
  show "wf (measure (\<lambda>(d, H, A, steps, iter, out, filtered, st). length (iters st iter)))"
    by simp
next
  fix d H A steps iter out filtered st x y element st2
  assume "(x, y) = PyIter_Next iter st" "x = Some element"
    and "for_steps d H steps element filtered y = ForBreak st2"
  then show "((d, H, A, steps, iter, out, True, st2), (d, H, A, steps, iter, out, filtered, st))
      \<in> measure (\<lambda>(d, H, A, steps, iter, out, filtered, st). length (iters st iter))"
    using for_steps_after_next_shorter [of x y iter st element d H steps filtered]
    by simp
next
  fix d H A steps iter out filtered st x y element element' filtered' st2 rc ya out' st3
  assume n: "(x, y) = PyIter_Next iter st" "x = Some element"
    and f: "for_steps d H steps element filtered y = ForDone element' filtered' st2"
    and a: "(rc, ya) = PyList_Append A out element' st2" "(out', st3) = ya"
  from a have "st3 = snd (snd (PyList_Append A out element' st2))"
    by (metis snd_conv)
  then have "iters st3 = iters st2" by simp
  with n f show "((d, H, A, steps, iter, out', filtered', st3),
        (d, H, A, steps, iter, out, filtered, st))
      \<in> measure (\<lambda>(d, H, A, steps, iter, out, filtered, st). length (iters st iter))"
    using for_steps_after_next_shorter [of x y iter st element d H steps filtered]
    by simp
next
  fix d H A steps iter out filtered st x y element element' filtered' st2
  assume "(x, y) = PyIter_Next iter st" "x = Some element"
    and "for_steps d H steps element filtered y = ForDone element' filtered' st2"
  then show "((d, H, A, steps, iter, out, filtered', st2),
        (d, H, A, steps, iter, out, filtered, st))
      \<in> measure (\<lambda>(d, H, A, steps, iter, out, filtered, st). length (iters st iter))"
    using for_steps_after_next_shorter [of x y iter st element d H steps filtered]
    by simp
qed

declare while_to_list.simps [simp del]

text \<open>\<^verbatim>\<open>fused::interpreted_to_list\<close> of \<^verbatim>\<open>src/unnamed/part_000\<close>.\<close>

definition interpreted_to_list ::
    "host \<Rightarrow> allocator \<Rightarrow> fused \<Rightarrow> pystate \<Rightarrow> obj list option \<times> pystate" where
  "interpreted_to_list H A self st =
     (case PyList_New A 0 st of
        (None, st1) \<Rightarrow> (None, st1)
      | (Some out, st1) \<Rightarrow>
          while_to_list True H A (m_steps self) (m_iter self) out False st1)"

section \<open>jit.cc: the function the backend builds\<close>

text \<open>
  \<^verbatim>\<open>jit::compile\<close> builds, through libgccjit, a function
  \<^verbatim>\<open>next(functions, num_functions, iter)\<close> out of basic blocks. The model keeps the
  blocks as data. The blocks are named after the variables that hold them in
  \<^verbatim>\<open>jit::compile\<close>; the blocks made once per step carry the index of the step.
\<close>

datatype block =
    Next_element
  | Return_null
  | Have_element
  | Decref_element_return
  | Handle_step nat
  | After_applied nat
  | Decref_get_next nat

text \<open>
  The locals of \<^verbatim>\<open>next\<close> are the pointers \<^verbatim>\<open>element\<close> and \<^verbatim>\<open>applied\<close> and the
  integer \<^verbatim>\<open>should_mask\<close>.
\<close>

datatype ptr_local = Element | Applied

record frame =
  l_element :: "obj option"
  l_applied :: "obj option"
  l_should_mask :: int

text \<open>
  The right-hand sides \<^verbatim>\<open>jit::compile\<close> uses: the null pointer, a local,
  \<^verbatim>\<open>pyiter_next(iter)\<close> and \<^verbatim>\<open>call_function(functions[n], local)\<close>.
\<close>

datatype rvalue =
    Null
  | Local ptr_local
  | Pyiter_next_iter
  | Call_function nat ptr_local

text \<open>
  The statements: an assignment to a pointer local, the assignment
  \<^verbatim>\<open>should_mask = pyobject_not(local)\<close> and the evaluation of \<^verbatim>\<open>py_decref(local)\<close>.
\<close>

datatype stmt =
    Assign ptr_local rvalue
  | Assign_should_mask ptr_local
  | Eval_py_decref ptr_local

text \<open>
  How a block ends: \<^verbatim>\<open>end_with_return\<close>, \<^verbatim>\<open>end_with_jump\<close>,
  \<^verbatim>\<open>end_with_conditional(local == null, on_true, on_false)\<close> and
  \<^verbatim>\<open>end_with_switch(should_mask, default_block, cases)\<close>, a case being a range of
  values and its block.
\<close>

datatype terminator =
    Return rvalue
  | Jump block
  | Conditional_null ptr_local block block
  | Switch_should_mask block "(int \<times> int \<times> block) list"

type_synonym jit_function = "(block \<times> stmt list \<times> terminator) list"

text \<open>
  The loop of \<^verbatim>\<open>jit::compile\<close> over the steps. \<open>n\<close> counts the steps done and
  \<open>current_block\<close> is the block the next step starts in: \<^verbatim>\<open>have_element\<close> for the first
  step, \<^verbatim>\<open>handle_steps[n - 1]\<close> after it. After the last step the current block returns
  \<^verbatim>\<open>element\<close>.
\<close>

fun compile_steps :: "node list \<Rightarrow> nat \<Rightarrow> block \<Rightarrow> jit_function" where
  "compile_steps [] n current_block = [(current_block, [], Return (Local Element))]"
| "compile_steps (step # rest) n current_block =
     (current_block, [Assign Applied (Call_function n Element)],
        Conditional_null Applied Decref_element_return (After_applied n))
     # (case m_kind step of
          kind_map \<Rightarrow>
            [(After_applied n,
              [Eval_py_decref Element, Assign Element (Local Applied)],
              Jump (Handle_step n))]
        | kind_filter \<Rightarrow>
            [(After_applied n,
              [Assign_should_mask Applied, Eval_py_decref Applied],
              Switch_should_mask Decref_element_return
                [(0, 0, Handle_step n), (1, 1, Decref_get_next n)]),
             (Decref_get_next n, [Eval_py_decref Element], Jump Next_element)])
     @ compile_steps rest (Suc n) (Handle_step n)"

text \<open>The blocks of the function \<^verbatim>\<open>next\<close> that \<^verbatim>\<open>jit::compile\<close> builds for the steps.\<close>

definition compile_blocks :: "node list \<Rightarrow> jit_function" where
  "compile_blocks steps =
     [(Next_element, [Assign Element Pyiter_next_iter],
         Conditional_null Element Return_null Have_element),
      (Return_null, [], Return Null),
      (Decref_element_return, [Eval_py_decref Element], Return Null)]
     @ compile_steps steps 0 Have_element"

subsection \<open>Running the blocks\<close>

text \<open>
  A run is stuck (\<open>None\<close>) where the machine code would do something undefined: a
  block that does not exist, an index outside \<^verbatim>\<open>functions\<close>, a null pointer passed to
  a call or to \<^verbatim>\<open>py_decref\<close>. The function \<^verbatim>\<open>Py_DECREF\<close> that \<^verbatim>\<open>build_py_decref\<close>
  builds decrements the count and calls \<^verbatim>\<open>_Py_Dealloc\<close> at zero; it is the host's
  \<open>Py_DECREF\<close>.
\<close>

fun get_local :: "ptr_local \<Rightarrow> frame \<Rightarrow> obj option" where
  "get_local Element fr = l_element fr"
| "get_local Applied fr = l_applied fr"

fun set_local :: "ptr_local \<Rightarrow> obj option \<Rightarrow> frame \<Rightarrow> frame" where
  "set_local Element v fr = fr\<lparr>l_element := v\<rparr>"
| "set_local Applied v fr = fr\<lparr>l_applied := v\<rparr>"

fun eval_rvalue ::
    "host \<Rightarrow> obj list \<Rightarrow> obj \<Rightarrow> rvalue \<Rightarrow> frame \<Rightarrow> pystate \<Rightarrow> (obj option \<times> pystate) option"
    where
  "eval_rvalue H functions iter Null fr st = Some (None, st)"
| "eval_rvalue H functions iter (Local l) fr st = Some (get_local l fr, st)"
| "eval_rvalue H functions iter Pyiter_next_iter fr st = Some (PyIter_Next iter st)"
| "eval_rvalue H functions iter (Call_function n l) fr st =
     (if n < length functions then
        (case get_local l fr of
           None \<Rightarrow> None
         | Some arg \<Rightarrow> Some (call_function H (functions ! n) arg st))
      else None)"

fun exec_stmt ::
    "host \<Rightarrow> obj list \<Rightarrow> obj \<Rightarrow> stmt \<Rightarrow> frame \<Rightarrow> pystate \<Rightarrow> (frame \<times> pystate) option" where
  "exec_stmt H functions iter (Assign l rv) fr st =
     (case eval_rvalue H functions iter rv fr st of
        None \<Rightarrow> None
      | Some (v, st1) \<Rightarrow> Some (set_local l v fr, st1))"
| "exec_stmt H functions iter (Assign_should_mask l) fr st =
     (case get_local l fr of
        None \<Rightarrow> None
      | Some ob \<Rightarrow>
          (case PyObject_Not H ob st of (m, st1) \<Rightarrow> Some (fr\<lparr>l_should_mask := m\<rparr>, st1)))"
| "exec_stmt H functions iter (Eval_py_decref l) fr st =
     (case get_local l fr of
        None \<Rightarrow> None
      | Some ob \<Rightarrow> Some (fr, Py_DECREF ob st))"

fun exec_stmts ::
    "host \<Rightarrow> obj list \<Rightarrow> obj \<Rightarrow> stmt list \<Rightarrow> frame \<Rightarrow> pystate \<Rightarrow> (frame \<times> pystate) option"
    where
  "exec_stmts H functions iter [] fr st = Some (fr, st)"
| "exec_stmts H functions iter (s # ss) fr st =
     (case exec_stmt H functions iter s fr st of
        None \<Rightarrow> None
      | Some (fr1, st1) \<Rightarrow> exec_stmts H functions iter ss fr1 st1)"

text \<open>The block a switch goes to: the first case whose range holds the value.\<close>

fun switch_target :: "int \<Rightarrow> block \<Rightarrow> (int \<times> int \<times> block) list \<Rightarrow> block" where
  "switch_target v default_block [] = default_block"
| "switch_target v default_block ((lo, hi, b) # cases) =
     (if lo \<le> v \<and> v \<le> hi then b else switch_target v default_block cases)"

text \<open>
  Running from a block on. The blocks form a loop, so the run is a partial function:
  \<open>None\<close> is a run that is stuck or does not end.
\<close>

partial_function (option) exec_block ::
    "host \<Rightarrow> jit_function \<Rightarrow> obj list \<Rightarrow> obj \<Rightarrow> block \<Rightarrow> frame \<Rightarrow> pystate
       \<Rightarrow> (obj option \<times> pystate) option" where
  "exec_block H code functions iter b fr st =
     (case map_of code b of
        None \<Rightarrow> None
      | Some (stmts, t) \<Rightarrow>
          (case exec_stmts H functions iter stmts fr st of
             None \<Rightarrow> None
           | Some (fr1, st1) \<Rightarrow>
               (case t of
                  Return rv \<Rightarrow> eval_rvalue H functions iter rv fr1 st1
                | Jump b1 \<Rightarrow> exec_block H code functions iter b1 fr1 st1
                | Conditional_null l on_true on_false \<Rightarrow>
                    exec_block H code functions iter
                      (if get_local l fr1 = None then on_true else on_false) fr1 st1
                | Switch_should_mask default_block cases \<Rightarrow>
                    exec_block H code functions iter
                      (switch_target (l_should_mask fr1) default_block cases) fr1 st1)))"

subsection \<open>jit.h: the compiled function and the handles it pins\<close>

text \<open>
  \<^verbatim>\<open>jit::next_function\<close>: the result of the compilation (null in a default-constructed
  one) and the vector of the callables, one reference taken on each.
\<close>

record next_function =
  m_gcc_jit_result :: "jit_function option"
  m_functions :: "obj list"

text \<open>The default constructor \<^verbatim>\<open>next_function()\<close>.\<close>

definition next_function_default :: next_function where
  "next_function_default = \<lparr>m_gcc_jit_result = None, m_functions = []\<rparr>"

text \<open>\<^verbatim>\<open>next_function(gcc_jit_result* result, const std::vector<node>& steps)\<close>.\<close>

fun pin_functions :: "node list \<Rightarrow> pystate \<Rightarrow> obj list \<times> pystate" where
  "pin_functions [] st = ([], st)"
| "pin_functions (step # rest) st =
     (case pin_functions rest (Py_INCREF (m_function step) st) of
        (obs, st1) \<Rightarrow> (m_function step # obs, st1))"

definition next_function_ctor ::
    "jit_function \<Rightarrow> node list \<Rightarrow> pystate \<Rightarrow> next_function \<times> pystate" where
  "next_function_ctor result steps st =
     (case pin_functions steps st of
        (obs, st1) \<Rightarrow> (\<lparr>m_gcc_jit_result = Some result, m_functions = obs\<rparr>, st1))"

text \<open>
  \<^verbatim>\<open>operator()(PyObject* iter)\<close>: the compiled \<^verbatim>\<open>next\<close> is entered at its first block,
  \<^verbatim>\<open>next_element\<close>, with locals that hold nothing yet.
\<close>

definition next_function_call ::
    "host \<Rightarrow> next_function \<Rightarrow> obj \<Rightarrow> pystate \<Rightarrow> (obj option \<times> pystate) option" where
  "next_function_call H nf iter st =
     (case m_gcc_jit_result nf of
        None \<Rightarrow> None
      | Some code \<Rightarrow>
          exec_block H code (m_functions nf) iter Next_element
            \<lparr>l_element = None, l_applied = None, l_should_mask = 0\<rparr> st)"

text \<open>
  \<^verbatim>\<open>jit::compile\<close>: the blocks are handed to libgccjit; when it fails the error
  indicator is set and nothing is returned.
\<close>

definition compile :: "host \<Rightarrow> node list \<Rightarrow> pystate \<Rightarrow> next_function option \<times> pystate" where
  "compile H steps st =
     (if jit_ok H then
        (case next_function_ctor (compile_blocks steps) steps st of
           (nf, st1) \<Rightarrow> (Some nf, st1))
      else (None, st\<lparr>err := True\<rparr>))"

section \<open>Building pipelines\<close>

text \<open>
  \<^verbatim>\<open>fused(PyObject* function, node_kind kind, PyObject* iter)\<close>. The vector is built
  from an initializer list: the node is constructed, copied into the vector and
  destroyed.
\<close>

definition fused_ctor :: "obj \<Rightarrow> node_kind \<Rightarrow> obj \<Rightarrow> pystate \<Rightarrow> fused \<times> pystate" where
  "fused_ctor function kind iter st =
     (case node_ctor function kind st of
        (tmp, st1) \<Rightarrow>
          (case node_copy_ctor tmp st1 of
             (n, st2) \<Rightarrow>
               let st3 = node_dtor tmp st2
               in (\<lparr>m_steps = [n], m_iter = iter\<rparr>, Py_INCREF iter st3)))"

text \<open>The copy of a vector of nodes: the copy constructor on each, in order.\<close>

fun copy_steps :: "node list \<Rightarrow> pystate \<Rightarrow> node list \<times> pystate" where
  "copy_steps [] st = ([], st)"
| "copy_steps (n # ns) st =
     (case node_copy_ctor n st of
        (n', st1) \<Rightarrow>
          (case copy_steps ns st1 of
             (ns', st2) \<Rightarrow> (n' # ns', st2)))"

text \<open>\<^verbatim>\<open>m_steps.emplace_back(function, kind)\<close>.\<close>

definition emplace_back ::
    "node list \<Rightarrow> obj \<Rightarrow> node_kind \<Rightarrow> pystate \<Rightarrow> node list \<times> pystate" where
  "emplace_back steps function kind st =
     (case node_ctor function kind st of (n, st1) \<Rightarrow> (steps @ [n], st1))"

text \<open>
  \<^verbatim>\<open>fused(PyObject* function, node_kind kind, const fused& tail, PyObject* compose)\<close>.
  \<^verbatim>\<open>m_steps.back()\<close> needs a step; every fused iterator the builders return has
  one (lemma \<open>build_Other_tail\<close> below), and on an empty vector the model goes straight
  to the \<^verbatim>\<open>emplace_back\<close>.
\<close>

definition fused_ctor_tail ::
    "host \<Rightarrow> obj \<Rightarrow> node_kind \<Rightarrow> fused \<Rightarrow> obj \<Rightarrow> pystate \<Rightarrow> fused \<times> pystate" where
  "fused_ctor_tail H function kind tail compose st =
     (case copy_steps (m_steps tail) st of
        (steps, st1) \<Rightarrow>
          let st2 = Py_INCREF (m_iter tail) st1 in
          if steps \<noteq> [] \<and> kind = kind_map \<and> m_kind (last steps) = kind_map then
            (case call_function2 H compose function (m_function (last steps)) st2 of
               (Some composed, st3) \<Rightarrow>
                 (case node_set_function (last steps) composed st3 of
                    (last', st4) \<Rightarrow>
                      (\<lparr>m_steps = butlast steps @ [last'], m_iter = m_iter tail\<rparr>,
                       Py_DECREF composed st4))
             | (None, st3) \<Rightarrow>
                 (case emplace_back steps function kind (PyErr_Clear st3) of
                    (steps', st4) \<Rightarrow> (\<lparr>m_steps = steps', m_iter = m_iter tail\<rparr>, st4)))
          else
            (case emplace_back steps function kind st2 of
               (steps', st3) \<Rightarrow> (\<lparr>m_steps = steps', m_iter = m_iter tail\<rparr>, st3)))"

subsection \<open>The Python object and the dispatcher\<close>

text \<open>The three functions \<^verbatim>\<open>m_next\<close> may point to.\<close>

datatype next_fn = first_next_fn | interpreted_next_fn | compiled_next_fn

text \<open>\<^verbatim>\<open>struct object\<close>, built with \<^verbatim>\<open>GOTENKS_JIT\<close>.\<close>

record object =
  m_fused :: fused
  m_next :: next_fn
  m_counter :: nat
  m_compiled_next :: next_function

text \<open>
  The argument \<^verbatim>\<open>tail\<close> of a builder call: a fused iterator object
  (\<^verbatim>\<open>Py_TYPE(tail) == &type\<close>) or any other object.
\<close>

datatype tail_arg = Fused_tail object | Other_tail obj

text \<open>\<^verbatim>\<open>new_fused<kind>(compose, function, tail)\<close>.\<close>

definition new_fused ::
    "host \<Rightarrow> node_kind \<Rightarrow> obj \<Rightarrow> obj \<Rightarrow> tail_arg \<Rightarrow> pystate \<Rightarrow> object option \<times> pystate"
    where
  "new_fused H kind compose function tail st =
     (case tail of
        Fused_tail t \<Rightarrow>
          (case fused_ctor_tail H function kind (m_fused t) compose st of
             (fu, st1) \<Rightarrow>
               (Some \<lparr>m_fused = fu, m_next = first_next_fn, m_counter = 1,
                       m_compiled_next = next_function_default\<rparr>, st1))
      | Other_tail ob \<Rightarrow>
          (case PyObject_GetIter H ob st of
             (None, st1) \<Rightarrow> (None, st1)
           | (Some iter, st1) \<Rightarrow>
               (case fused_ctor function kind iter st1 of
                  (fu, st2) \<Rightarrow>
                    (Some \<lparr>m_fused = fu, m_next = first_next_fn, m_counter = 1,
                            m_compiled_next = next_function_default\<rparr>,
                     Py_DECREF iter st2))))"

text \<open>The thresholds of the dispatcher.\<close>

definition compile_threshold_steps :: nat where
  "compile_threshold_steps = 10"

definition compile_threshold_size :: int where
  "compile_threshold_size = 50000000"

text \<open>
  A pull through the object gives the result of the pull, the object as the pull
  leaves it, and the host state. \<open>None\<close> is a run of the compiled function that is
  stuck or does not end.
\<close>

type_synonym pull = "((obj option \<times> object) \<times> pystate) option"

definition object_interpreted_next :: "host \<Rightarrow> object \<Rightarrow> pystate \<Rightarrow> pull" where
  "object_interpreted_next H self st =
     (case interpreted_next H (m_fused self) st of (r, st1) \<Rightarrow> Some ((r, self), st1))"

definition compiled_next :: "host \<Rightarrow> object \<Rightarrow> pystate \<Rightarrow> pull" where
  "compiled_next H self st =
     (case next_function_call H (m_compiled_next self) (m_iter (m_fused self)) st of
        None \<Rightarrow> None
      | Some (r, st1) \<Rightarrow> Some ((r, self), st1))"

text \<open>\<^verbatim>\<open>fused::compile()\<close>: a failure of libgccjit ends as a Python error.\<close>

definition fused_compile :: "host \<Rightarrow> fused \<Rightarrow> pystate \<Rightarrow> next_function option \<times> pystate" where
  "fused_compile H self st = compile H (m_steps self) st"

text \<open>
  \<^verbatim>\<open>first_next\<close>. The condition is
  \<^verbatim>\<open>size() < compile_threshold_steps || PyObject_LengthHint(iter, 0) < compile_threshold_size\<close>:
  the length hint is asked for only when the first test fails, and a hint that raised
  is the \<open>-1\<close> the call returns, with the error indicator left set.
\<close>

definition first_next :: "host \<Rightarrow> object \<Rightarrow> pystate \<Rightarrow> pull" where
  "first_next H self st =
     (if length (m_steps (m_fused self)) < compile_threshold_steps
      then object_interpreted_next H (self\<lparr>m_next := interpreted_next_fn\<rparr>) st
      else
        (case PyObject_LengthHint H (m_iter (m_fused self)) st of
           (hint, st1) \<Rightarrow>
             if hint < compile_threshold_size
             then object_interpreted_next H (self\<lparr>m_next := interpreted_next_fn\<rparr>) st1
             else
               (case fused_compile H (m_fused self) st1 of
                  (None, st2) \<Rightarrow> Some ((None, self), st2)
                | (Some result, st2) \<Rightarrow>
                    compiled_next H
                      (self\<lparr>m_compiled_next := result, m_next := compiled_next_fn\<rparr>) st2)))"

text \<open>\<^verbatim>\<open>methods::iternext\<close>: \<^verbatim>\<open>return self->m_next(self)\<close>.\<close>

definition iternext :: "host \<Rightarrow> object \<Rightarrow> pystate \<Rightarrow> pull" where
  "iternext H self st =
     (case m_next self of
        first_next_fn \<Rightarrow> first_next H self st
      | interpreted_next_fn \<Rightarrow> object_interpreted_next H self st
      | compiled_next_fn \<Rightarrow> compiled_next H self st)"

subsection \<open>The method \<^verbatim>\<open>steps\<close>\<close>

text \<open>
  \<^verbatim>\<open>methods::steps\<close> allocates the two names, the list and one tuple for each step.
  The result is the list of pairs, or \<open>None\<close> for \<^verbatim>\<open>nullptr\<close>.
\<close>


fun steps_loop ::
    "allocator \<Rightarrow> string list \<Rightarrow> node list \<Rightarrow> nat \<Rightarrow> (string \<times> obj) list
       \<Rightarrow> (string \<times> obj) list option" where
  "steps_loop A names [] ix steps = Some steps"
| "steps_loop A names (step # rest) ix steps =
     (let name = names ! kind_index (m_kind step) in
      if \<not> tuple_ok A ix then None
      else steps_loop A names rest (Suc ix) (steps @ [(name, m_function step)]))"

definition steps_method :: "allocator \<Rightarrow> object \<Rightarrow> (string \<times> obj) list option" where
  "steps_method A self =
     (if \<not> unicode_ok A ''map'' then None
      else if \<not> unicode_ok A ''filter'' then None
      else
        let names = [''map'', ''filter''] in
        if \<not> list_ok A (length (m_steps (m_fused self))) then None
        else steps_loop A names (m_steps (m_fused self)) 0 [])"

section \<open>An example host\<close>

text \<open>
  A small host for concrete runs. The callables: \<open>100\<close> adds one, \<open>101\<close> doubles, \<open>102\<close>
  doubles and adds one (it is what \<open>compose\<close> returns for \<open>100\<close> after \<open>101\<close>), \<open>103\<close> tests
  \<open>x > 2\<close> and answers with the object \<open>1000\<close> (true) or \<open>1001\<close> (false), \<open>104\<close> adds one
  and raises on \<open>2\<close>, \<open>105\<close> answers with the object \<open>1002\<close>, whose truth test raises.
  The object \<open>7\<close> is \<open>gotenks.compose.compose\<close>; it composes \<open>100\<close> after \<open>101\<close> and fails
  on every other pair. The object \<open>50\<close> is an iterator.
\<close>

definition example_host :: host where
  "example_host =
     \<lparr>call1 = (\<lambda>f x.
         if f = 100 then Some (x + 1)
         else if f = 101 then Some (2 * x)
         else if f = 102 then Some (2 * x + 1)
         else if f = 103 then Some (if 2 < x then 1000 else 1001)
         else if f = 104 then (if x = 2 then None else Some (x + 1))
         else if f = 105 then Some 1002
         else None),
       call2 = (\<lambda>c f g. if c = 7 \<and> f = 100 \<and> g = 101 then Some 102 else None),
       is_true = (\<lambda>v. if v = 1002 then None else Some (v \<noteq> 1001)),
       get_iter = (\<lambda>v. if v = 50 then Some 50 else None),
       length_hint = (\<lambda>v. Some 4),
       jit_ok = True\<rparr>"

text \<open>A state where nothing is referenced yet and the iterator \<open>50\<close> holds \<open>items\<close>.\<close>

definition example_state :: "item list \<Rightarrow> pystate" where
  "example_state items =
     \<lparr>refcnt = (\<lambda>ob. 0), iters = (\<lambda>it. if it = 50 then items else []), err = False\<rparr>"

text \<open>An allocator that never fails, and an object around a pipeline on the iterator \<open>50\<close>.\<close>

definition example_allocator :: allocator where
  "example_allocator =
     \<lparr>unicode_ok = (\<lambda>s. True), list_ok = (\<lambda>n. True), tuple_ok = (\<lambda>ix. True),
      append_ok = (\<lambda>n. True)\<rparr>"

definition example_object :: "node list \<Rightarrow> object" where
  "example_object steps =
     \<lparr>m_fused = \<lparr>m_steps = steps, m_iter = 50\<rparr>, m_next = first_next_fn, m_counter = 1,
      m_compiled_next = next_function_default\<rparr>"

text \<open>The definitions a concrete run of the builders unfolds.\<close>

lemmas build_eval =
  new_fused_def PyObject_GetIter_def fused_ctor_def node_ctor_def node_copy_ctor_def
  node_dtor_def Py_XDECREF_def nullptr_def Py_INCREF_def Py_DECREF_def fused_ctor_tail_def
  call_function2_def node_set_function_def emplace_back_def PyErr_Clear_def example_host_def
  example_state_def example_object_def Let_def

text \<open>The definitions a concrete pull unfolds.\<close>

lemmas pull_eval =
  interpreted_next_def while_next.simps PyIter_Next_def call_function_def PyObject_Not_def

text \<open>The definitions a concrete run of \<^verbatim>\<open>to_list\<close> unfolds.\<close>

lemmas to_list_eval =
  interpreted_to_list_def while_to_list.simps PyList_New_def PyList_Append_def
  list_dealloc_def PyIter_Next_def call_function_def PyObject_Not_def

section \<open>Reference counts of the nodes\<close>

text \<open>The number of the nodes of a list that hold the callable \<open>f\<close>.\<close>

definition held_by :: "node list \<Rightarrow> obj \<Rightarrow> int" where
  "held_by nodes f = int (length (filter (\<lambda>n. m_function n = f) nodes))"

lemma refcnt_node_ctor:
  "refcnt (snd (node_ctor f k st)) = (refcnt st)(f := refcnt st f + 1)"
  by (simp add: node_ctor_def Py_INCREF_def)

lemma refcnt_node_copy_ctor:
  "refcnt (snd (node_copy_ctor cpfrom st)) =
     (refcnt st)(m_function cpfrom := refcnt st (m_function cpfrom) + 1)"
  by (simp add: node_copy_ctor_def Py_INCREF_def)

lemma refcnt_node_move_ctor:
  "refcnt (snd (node_move_ctor mvfrom st)) = refcnt st"
  "m_function (snd (fst (node_move_ctor mvfrom st))) = nullptr"
  "m_function (fst (fst (node_move_ctor mvfrom st))) = m_function mvfrom"
  by (simp_all add: node_move_ctor_def)

lemma refcnt_node_dtor:
  "refcnt (node_dtor this st) =
     (if m_function this = nullptr then refcnt st
      else (refcnt st)(m_function this := refcnt st (m_function this) - 1))"
  by (simp add: node_dtor_def Py_XDECREF_def Py_DECREF_def)

lemma refcnt_node_set_function:
  "m_function this \<noteq> nullptr \<Longrightarrow> m_function this \<noteq> g \<Longrightarrow>
     refcnt (snd (node_set_function this g st)) =
       (refcnt st)(m_function this := refcnt st (m_function this) - 1, g := refcnt st g + 1)"
  by (simp add: node_set_function_def Py_XDECREF_def Py_DECREF_def Py_INCREF_def Let_def)

text \<open>
  Copy assignment takes a reference to the callable of \<open>cpfrom\<close> and does nothing
  else to the counts: the callable the node held before keeps the reference the node
  had on it. Move assignment changes no count at all.
\<close>

lemma refcnt_node_copy_assign:
  "refcnt (snd (node_copy_assign this cpfrom st)) =
     (refcnt st)(m_function cpfrom := refcnt st (m_function cpfrom) + 1)"
  by (simp add: node_copy_assign_def Py_INCREF_def Let_def)

lemma refcnt_node_move_assign:
  "refcnt (snd (node_move_assign this mvfrom st)) = refcnt st"
  by (simp add: node_move_assign_def Let_def)

text \<open>
  C8, at a failing input. Two nodes are built where nothing is referenced: \<open>a\<close> on the
  callable \<open>100\<close>, \<open>b\<close> on the callable \<open>101\<close>; each callable then has one reference and
  one node that holds it. After the copy assignment \<open>a = b\<close> both nodes hold \<open>101\<close>,
  which has two references, and no node holds \<open>100\<close>, which still has one: the
  reference \<open>a\<close> had on \<open>100\<close> was not released. After the move assignment
  \<open>a = std::move(b)\<close> instead, \<open>a\<close> holds \<open>101\<close>, \<open>b\<close> holds nothing, and \<open>100\<close> again
  keeps a reference no node has. The setter \<open>node_set_function\<close> and the destructor do
  release the callable they give up.
\<close>

theorem node_copy_assign_leaks_old_callable:
  "(case node_ctor 100 kind_map (example_state []) of (a, st1) \<Rightarrow>
      case node_ctor 101 kind_filter st1 of (b, st2) \<Rightarrow>
        case node_copy_assign a b st2 of (a', st3) \<Rightarrow>
          (held_by [a, b] 100, refcnt st2 100, held_by [a, b] 101, refcnt st2 101,
           held_by [a', b] 100, refcnt st3 100, held_by [a', b] 101, refcnt st3 101))
   = (1, 1, 1, 1, 0, 1, 2, 2)
   \<and> (case node_ctor 100 kind_map (example_state []) of (a, st1) \<Rightarrow>
      case node_ctor 101 kind_filter st1 of (b, st2) \<Rightarrow>
        case node_move_assign a b st2 of ((a', b'), st3) \<Rightarrow>
          (m_function a', m_function b' = nullptr,
           held_by [a', b'] 100, refcnt st3 100, held_by [a', b'] 101, refcnt st3 101))
   = (101, True, 0, 1, 1, 1)"
  by (simp add: node_ctor_def node_copy_assign_def node_move_assign_def example_state_def
      held_by_def Py_INCREF_def Let_def nullptr_def)

section \<open>Reference conservation of the pull routine\<close>


lemma for_steps_ForDone_filtered:
  "for_steps d H steps e filtered st = ForDone e' f' st' \<Longrightarrow>
     f' = (filtered \<and> kind_filter \<notin> m_kind ` set steps)"
proof (induction steps arbitrary: e filtered st)
  case Nil
  then show ?case by simp
next
  case (Cons step rest)
  then show ?case
    by (auto simp: Let_def split: prod.splits option.splits node_kind.splits if_splits)
qed

lemma for_steps_ForBreak_has_filter:
  "for_steps d H steps e filtered st = ForBreak st' \<Longrightarrow> kind_filter \<in> m_kind ` set steps"
proof (induction steps arbitrary: e filtered st)
  case Nil
  then show ?case by simp
next
  case (Cons step rest)
  then show ?case
    by (auto simp: Let_def split: prod.splits option.splits node_kind.splits if_splits)
qed

lemma refcnt_PyObject_Not [simp]: "refcnt (snd (PyObject_Not H ob st)) = refcnt st"
  by (simp add: PyObject_Not_def split: option.splits)

lemma refcnt_call_function_Some:
  "call_function H f x st = (Some r, st1) \<Longrightarrow> refcnt st1 = refcnt (Py_INCREF r st)"
  by (auto simp: call_function_def split: option.splits)

lemma refcnt_call_function_None:
  "call_function H f x st = (None, st1) \<Longrightarrow> refcnt st1 = refcnt st"
  by (auto simp: call_function_def split: option.splits)

lemma refcnt_Py_DECREF_cong:
  "refcnt a = refcnt b \<Longrightarrow> refcnt (Py_DECREF x a) = refcnt (Py_DECREF x b)"
  by (simp add: Py_DECREF_def)

lemma refcnt_DECREF_INCREF [simp]: "refcnt (Py_DECREF x (Py_INCREF x st)) = refcnt st"
  by (simp add: Py_DECREF_def Py_INCREF_def fun_eq_iff)

lemma refcnt_DECREF_commute:
  "refcnt (Py_DECREF x (Py_DECREF y st)) = refcnt (Py_DECREF y (Py_DECREF x st))"
  by (auto simp add: Py_DECREF_def fun_eq_iff)

lemma refcnt_DECREF_INCREF_commute:
  "refcnt (Py_DECREF x (Py_INCREF y st)) = refcnt (Py_INCREF y (Py_DECREF x st))"
  by (auto simp add: Py_DECREF_def Py_INCREF_def fun_eq_iff)

text \<open>
  The \<^verbatim>\<open>for\<close> loop of the version of \<^verbatim>\<open>src/unnamed/part_000\<close> trades the reference
  to the element it was entered with for a reference to the element it ends with, or
  releases it when it leaves early.
\<close>

lemma for_steps_refcnt:
  "refcnt (case for_steps True H steps e filtered st of
       ForReturn st' \<Rightarrow> st' | ForBreak st' \<Rightarrow> st' | ForDone e' f' st' \<Rightarrow> Py_DECREF e' st')
     = refcnt (Py_DECREF e st)"
proof (induction steps arbitrary: e filtered st)
  case Nil
  show ?case by simp
next
  case (Cons step rest)
  obtain r st1 where c: "call_function H (m_function step) e st = (r, st1)"
    by (cases "call_function H (m_function step) e st")
  show ?case
  proof (cases r)
    case None
    with c have "refcnt st1 = refcnt st" by (simp add: refcnt_call_function_None)
    then have "refcnt (Py_DECREF e st1) = refcnt (Py_DECREF e st)"
      by (rule refcnt_Py_DECREF_cong)
    with c None show ?thesis by simp
  next
    case (Some applied)
    with c have r1: "refcnt st1 = refcnt (Py_INCREF applied st)"
      by (simp add: refcnt_call_function_Some)
    show ?thesis
    proof (cases "m_kind step")
      case kind_map
      have "refcnt (Py_DECREF applied (Py_DECREF e st1)) = refcnt (Py_DECREF e st)"
        using r1 by (auto simp: Py_DECREF_def Py_INCREF_def fun_eq_iff)
      with c Some kind_map Cons.IH [of applied filtered "Py_DECREF e st1"]
      show ?thesis by simp
    next
      case kind_filter
      obtain should_mask st2 where n: "PyObject_Not H applied st1 = (should_mask, st2)"
        by (cases "PyObject_Not H applied st1")
      have "refcnt (snd (PyObject_Not H applied st1)) = refcnt st1" by simp
      with n have r2: "refcnt st2 = refcnt st1" by simp
      have r3: "refcnt (Py_DECREF applied st2) = refcnt st"
        using r1 r2 by (auto simp: Py_DECREF_def Py_INCREF_def fun_eq_iff)
      then have r4: "refcnt (Py_DECREF e (Py_DECREF applied st2)) = refcnt (Py_DECREF e st)"
        by (rule refcnt_Py_DECREF_cong)
      have r5: "refcnt (case for_steps True H rest e False (Py_DECREF applied st2) of
           ForReturn st' \<Rightarrow> st' | ForBreak st' \<Rightarrow> st' | ForDone e' f' st' \<Rightarrow> Py_DECREF e' st')
         = refcnt (Py_DECREF e st)"
        using Cons.IH [of e False "Py_DECREF applied st2"] r4 by simp
      from c Some kind_filter n r4 r5 show ?thesis
        by (simp add: Let_def)
    qed
  qed
qed

lemma refcnt_PyIter_Next_Some:
  "PyIter_Next iter st = (Some e, st1) \<Longrightarrow> refcnt st1 = refcnt (Py_INCREF e st)"
  by (auto simp: PyIter_Next_def Py_INCREF_def split: list.splits item.splits)

lemma refcnt_PyIter_Next_None:
  "PyIter_Next iter st = (None, st1) \<Longrightarrow> refcnt st1 = refcnt st"
  by (auto simp: PyIter_Next_def Py_INCREF_def split: list.splits item.splits)

lemma refcnt_Py_INCREF_cong:
  "refcnt a = refcnt b \<Longrightarrow> refcnt (Py_INCREF x a) = refcnt (Py_INCREF x b)"
  by (simp add: Py_INCREF_def)

lemma refcnt_result_cong:
  "refcnt a = refcnt b \<Longrightarrow>
     refcnt (case r of None \<Rightarrow> a | Some e \<Rightarrow> Py_INCREF e a) =
     refcnt (case r of None \<Rightarrow> b | Some e \<Rightarrow> Py_INCREF e b)"
  by (cases r) (simp_all add: Py_INCREF_def)

text \<open>
  The pull routine of \<^verbatim>\<open>src/unnamed/part_000\<close> conserves references on every path:
  when it returns an element the caller owns one more reference to it, and no other
  count has changed.
\<close>

lemma while_next_refcnt:
  "d \<Longrightarrow> (filtered \<longrightarrow> kind_filter \<in> m_kind ` set steps) \<Longrightarrow>
     refcnt (snd (while_next d H steps iter filtered st)) =
     refcnt (case fst (while_next d H steps iter filtered st) of
               None \<Rightarrow> st | Some e \<Rightarrow> Py_INCREF e st)"
proof (induction d H steps iter filtered st rule: while_next.induct)
  case (1 d H steps iter filtered st)
  obtain r st1 where n: "PyIter_Next iter st = (r, st1)"
    by (cases "PyIter_Next iter st")
  show ?case
  proof (cases r)
    case None
    with n have "refcnt st1 = refcnt st" by (simp add: refcnt_PyIter_Next_None)
    with n None show ?thesis by (simp add: while_next.simps [of d H steps iter filtered st])
  next
    case (Some element)
    with n have r1: "refcnt st1 = refcnt (Py_INCREF element st)"
      by (simp add: refcnt_PyIter_Next_Some)
    from "1.prems" have d: "d = True" by simp
    have fr: "refcnt (case for_steps True H steps element filtered st1 of
         ForReturn st' \<Rightarrow> st' | ForBreak st' \<Rightarrow> st' | ForDone e' f' st' \<Rightarrow> Py_DECREF e' st')
       = refcnt (Py_DECREF element st1)"
      by (rule for_steps_refcnt)
    have base: "refcnt (Py_DECREF element st1) = refcnt st"
      using r1 by (auto simp: Py_DECREF_def Py_INCREF_def fun_eq_iff)
    show ?thesis
    proof (cases "for_steps d H steps element filtered st1")
      case (ForReturn st2)
      with fr base d have "refcnt st2 = refcnt st" by simp
      with n Some ForReturn show ?thesis
        by (simp add: while_next.simps [of d H steps iter filtered st])
    next
      case (ForBreak st2)
      with fr base d have r2: "refcnt st2 = refcnt st" by simp
      from ForBreak have hf: "kind_filter \<in> m_kind ` set steps"
        by (rule for_steps_ForBreak_has_filter)
      have ih: "refcnt (snd (while_next d H steps iter True st2)) =
          refcnt (case fst (while_next d H steps iter True st2) of
                    None \<Rightarrow> st2 | Some e \<Rightarrow> Py_INCREF e st2)"
        using "1.IH"(1) [OF n [symmetric] Some ForBreak] "1.prems"(1) hf by simp
      also have "\<dots> = refcnt (case fst (while_next d H steps iter True st2) of
                    None \<Rightarrow> st | Some e \<Rightarrow> Py_INCREF e st)"
        using r2 by (rule refcnt_result_cong)
      finally show ?thesis using n Some ForBreak
        by (simp add: while_next.simps [of d H steps iter filtered st])
    next
      case (ForDone e' f' st2)
      then have "f' = (filtered \<and> kind_filter \<notin> m_kind ` set steps)"
        by (rule for_steps_ForDone_filtered)
      with "1.prems"(2) have nf: "\<not> f'" by simp
      from fr base d ForDone have eq: "refcnt (Py_DECREF e' st2) = refcnt st" by simp
      have "refcnt st2 x = refcnt (Py_INCREF e' st) x" for x
        using fun_cong [OF eq, of x]
        by (simp add: Py_DECREF_def Py_INCREF_def split: if_splits)
      then have "refcnt st2 = refcnt (Py_INCREF e' st)"
        by (rule ext)
      with n Some ForDone nf show ?thesis
        by (simp add: while_next.simps [of d H steps iter filtered st])
    qed
  qed
qed

lemma interpreted_next_refcnt:
  "refcnt (snd (interpreted_next H self st)) =
     refcnt (case fst (interpreted_next H self st) of None \<Rightarrow> st | Some e \<Rightarrow> Py_INCREF e st)"
  unfolding interpreted_next_def by (rule while_next_refcnt) simp_all

text \<open>
  C2, at a failing input. The pipeline is one map step on the callable \<open>100\<close> (add one),
  the source yields the object \<open>5\<close>, and nothing is referenced before the pull. Both
  versions return the object \<open>6\<close> with the one reference the caller now owns. The
  version of \<^verbatim>\<open>src/gotenks/fused.cc\<close> leaves the object \<open>5\<close> with the reference
  \<^verbatim>\<open>PyIter_Next\<close> gave and nobody holds any more: the handle is leaked. The version of
  \<^verbatim>\<open>src/unnamed/part_000\<close> releases it.
\<close>

theorem interpreted_next_fused_cc_leaks_premap_element:
  "(case interpreted_next_fused_cc example_host
           \<lparr>m_steps = [\<lparr>m_function = 100, m_kind = kind_map\<rparr>], m_iter = 50\<rparr>
           (example_state [Item 5]) of
      (r, st) \<Rightarrow> (r, refcnt st 5, refcnt st 6)) = (Some 6, 1, 1)
   \<and> (case interpreted_next example_host
           \<lparr>m_steps = [\<lparr>m_function = 100, m_kind = kind_map\<rparr>], m_iter = 50\<rparr>
           (example_state [Item 5]) of
      (r, st) \<Rightarrow> (r, refcnt st 5, refcnt st 6)) = (Some 6, 0, 1)"
  by (simp add: interpreted_next_fused_cc_def interpreted_next_def while_next.simps
      PyIter_Next_def example_state_def example_host_def call_function_def
      Py_INCREF_def Py_DECREF_def)

section \<open>Terminal outcomes of a pull\<close>

text \<open>
  A pull that returns \<^verbatim>\<open>NULL\<close> reports an error when the error indicator is set and
  exhaustion when it is not.
\<close>

lemma err_call_function_None:
  "call_function H f x st = (None, st1) \<Longrightarrow> err st1"
  by (auto simp: call_function_def split: option.splits)

lemma err_PyObject_Not_negative:
  "PyObject_Not H ob st = (m, st1) \<Longrightarrow> m < 0 \<Longrightarrow> err st1"
  by (auto simp: PyObject_Not_def split: option.splits if_splits)

lemma err_Py_DECREF [simp]: "err (Py_DECREF ob st) = err st"
  by (simp add: Py_DECREF_def)

lemma err_Py_INCREF [simp]: "err (Py_INCREF ob st) = err st"
  by (simp add: Py_INCREF_def)

lemma for_steps_ForReturn_err:
  "for_steps d H steps e filtered st = ForReturn st' \<Longrightarrow> err st'"
proof (induction steps arbitrary: e filtered st)
  case Nil
  then show ?case by simp
next
  case (Cons step rest)
  then show ?case
    by (auto simp: Let_def err_call_function_None err_PyObject_Not_negative
        split: prod.splits option.splits node_kind.splits if_splits)
qed

lemma PyIter_Next_None:
  "PyIter_Next iter st = (None, st1) \<Longrightarrow> \<not> err st1 \<Longrightarrow> st1 = st \<and> iters st iter = []"
  by (auto simp: PyIter_Next_def split: list.splits item.splits)

lemma PyIter_Next_exhausted: "iters st iter = [] \<Longrightarrow> PyIter_Next iter st = (None, st)"
  by (simp add: PyIter_Next_def)

lemma while_next_exhausted:
  "iters st iter = [] \<Longrightarrow> while_next d H steps iter filtered st = (None, st)"
  by (simp add: while_next.simps [of d H steps iter filtered st] PyIter_Next_exhausted)

lemma while_next_None_no_err:
  "while_next d H steps iter filtered st = (None, st') \<Longrightarrow> \<not> err st' \<Longrightarrow>
     iters st' iter = []"
proof (induction d H steps iter filtered st rule: while_next.induct)
  case (1 d H steps iter filtered st)
  obtain r st1 where n: "PyIter_Next iter st = (r, st1)"
    by (cases "PyIter_Next iter st")
  show ?case
  proof (cases r)
    case None
    with n "1.prems" have "st' = st1"
      by (simp add: while_next.simps [of d H steps iter filtered st])
    with n None "1.prems"(2) show ?thesis
      using PyIter_Next_None [of iter st st1] by simp
  next
    case (Some element)
    show ?thesis
    proof (cases "for_steps d H steps element filtered st1")
      case (ForReturn st2)
      with n Some "1.prems" have "st' = st2"
        by (simp add: while_next.simps [of d H steps iter filtered st])
      with ForReturn "1.prems"(2) show ?thesis
        using for_steps_ForReturn_err [of d H steps element filtered st1 st2] by simp
    next
      case (ForBreak st2)
      with n Some "1.prems" have "while_next d H steps iter True st2 = (None, st')"
        by (simp add: while_next.simps [of d H steps iter filtered st])
      then show ?thesis
        using "1.IH"(1) [OF n [symmetric] Some ForBreak] "1.prems"(2) by simp
    next
      case (ForDone e' f' st2)
      with n Some "1.prems" have f: "f'" and
        w: "while_next d H steps iter f' st2 = (None, st')"
        by (auto simp add: while_next.simps [of d H steps iter filtered st] split: if_splits)
      from f have "\<not> \<not> f'" by simp
      with w show ?thesis
        using "1.IH"(2) [OF n [symmetric] Some ForDone] "1.prems"(2) by simp
    qed
  qed
qed

text \<open>
  C6, as amended. The iterator keeps no state of its own: every pull asks the source
  again. Once a pull has reported exhaustion the source has nothing left, so every
  later pull finds the source exhausted, reports exhaustion again and leaves the host
  state as it is, whatever the callables are: none is invoked.
\<close>

theorem exhaustion_is_sticky:
  assumes "interpreted_next H self st = (None, st')" and "\<not> err st'"
  shows "interpreted_next H' self st' = (None, st')"
proof -
  from assms have "iters st' (m_iter self) = []"
    unfolding interpreted_next_def by (rule while_next_None_no_err)
  then show ?thesis
    unfolding interpreted_next_def by (rule while_next_exhausted)
qed

text \<open>
  C6 as stated fails for errors. The callable \<open>104\<close> raises on \<open>2\<close>; over the source
  \<open>1, 2, 3\<close> the first pull returns \<open>2\<close>, the second reports the error and leaves \<open>3\<close>
  in the source, and the third advances the source, invokes the callable and returns
  \<open>4\<close>.
\<close>

theorem errors_are_not_sticky:
  "(case interpreted_next example_host
           \<lparr>m_steps = [\<lparr>m_function = 104, m_kind = kind_map\<rparr>], m_iter = 50\<rparr>
           (example_state [Item 1, Item 2, Item 3]) of
      (r1, st1) \<Rightarrow>
        case interpreted_next example_host
           \<lparr>m_steps = [\<lparr>m_function = 104, m_kind = kind_map\<rparr>], m_iter = 50\<rparr> st1 of
      (r2, st2) \<Rightarrow>
        case interpreted_next example_host
           \<lparr>m_steps = [\<lparr>m_function = 104, m_kind = kind_map\<rparr>], m_iter = 50\<rparr> st2 of
      (r3, st3) \<Rightarrow> (r1, r2, err st2, iters st2 50, r3, iters st3 50))
   = (Some 2, None, True, [Item 3], Some 4, [])"
  by (simp add: interpreted_next_def while_next.simps
      PyIter_Next_def example_state_def example_host_def call_function_def
      Py_INCREF_def Py_DECREF_def)

theorem exhaustion_is_sticky_witness:
  "interpreted_next example_host
      \<lparr>m_steps = [\<lparr>m_function = 100, m_kind = kind_map\<rparr>], m_iter = 50\<rparr> (example_state [])
     = (None, example_state [])
   \<and> \<not> err (example_state [])"
proof -
  have a: "interpreted_next example_host
      \<lparr>m_steps = [\<lparr>m_function = 100, m_kind = kind_map\<rparr>], m_iter = 50\<rparr> (example_state [])
     = (None, example_state [])"
    by (simp add: interpreted_next_def while_next.simps PyIter_Next_def example_state_def)
  have b: "\<not> err (example_state [])"
    by (simp add: example_state_def)
  from exhaustion_is_sticky [OF a b, of example_host] b show ?thesis by simp
qed

section \<open>The method \<^verbatim>\<open>steps\<close>: a snapshot of the pipeline\<close>

text \<open>The name \<^verbatim>\<open>steps\<close> gives a step of a kind.\<close>

fun kind_name :: "node_kind \<Rightarrow> string" where
  "kind_name kind_map = ''map''"
| "kind_name kind_filter = ''filter''"

text \<open>All the allocations of \<^verbatim>\<open>steps\<close> on a pipeline of \<open>n\<close> steps succeed.\<close>

definition allocations_succeed :: "allocator \<Rightarrow> nat \<Rightarrow> bool" where
  "allocations_succeed A n \<longleftrightarrow>
     unicode_ok A ''map'' \<and> unicode_ok A ''filter'' \<and> list_ok A n \<and> (\<forall>ix<n. tuple_ok A ix)"

lemma names_kind_index: "[''map'', ''filter''] ! kind_index k = kind_name k"
  by (cases k) simp_all

lemma steps_loop_all:
  "(\<forall>i<length rest. tuple_ok A (ix + i)) \<Longrightarrow>
     steps_loop A [''map'', ''filter''] rest ix acc =
       Some (acc @ map (\<lambda>n. (kind_name (m_kind n), m_function n)) rest)"
proof (induction rest arbitrary: ix acc)
  case Nil
  show ?case by simp
next
  case (Cons step rest)
  from Cons.prems have t: "tuple_ok A ix" by force
  have "\<forall>i<length rest. tuple_ok A (Suc ix + i)"
  proof (intro allI impI)
    fix i assume "i < length rest"
    then have "Suc i < length (step # rest)" by simp
    with Cons.prems have "tuple_ok A (ix + Suc i)" by blast
    then show "tuple_ok A (Suc ix + i)" by simp
  qed
  then have "steps_loop A [''map'', ''filter''] rest (Suc ix)
        (acc @ [(kind_name (m_kind step), m_function step)]) =
      Some ((acc @ [(kind_name (m_kind step), m_function step)])
              @ map (\<lambda>n. (kind_name (m_kind n), m_function n)) rest)"
    by (rule Cons.IH)
  with t show ?case
    by (simp add: names_kind_index Let_def del: kind_index.simps)
qed

lemma steps_method_all:
  assumes "allocations_succeed A (length (m_steps (m_fused self)))"
  shows "steps_method A self =
           Some (map (\<lambda>n. (kind_name (m_kind n), m_function n)) (m_steps (m_fused self)))"
proof -
  from assms have "\<forall>i<length (m_steps (m_fused self)). tuple_ok A (0 + i)"
    by (simp add: allocations_succeed_def)
  then have "steps_loop A [''map'', ''filter''] (m_steps (m_fused self)) 0 [] =
      Some ([] @ map (\<lambda>n. (kind_name (m_kind n), m_function n)) (m_steps (m_fused self)))"
    by (rule steps_loop_all)
  with assms show ?thesis
    by (simp add: steps_method_def allocations_succeed_def Let_def)
qed

text \<open>
  C9. \<^verbatim>\<open>steps\<close> reads the pipeline and does not change it. Whenever the host can
  allocate what the method asks for, as in two calls with the allocators \<open>A\<close> and \<open>A'\<close>,
  the calls return equal lists; the list has one entry for each step of the pipeline,
  in order, and the entry is the pair of \<open>''map''\<close> for a map step and \<open>''filter''\<close> for
  a filter step with the callable of the step.
\<close>

theorem steps_method_snapshot:
  assumes "allocations_succeed A (length (m_steps (m_fused self)))"
    and "allocations_succeed A' (length (m_steps (m_fused self)))"
  shows "\<exists>l. steps_method A self = Some l \<and> steps_method A' self = Some l
           \<and> length l = length (m_steps (m_fused self))
           \<and> (\<forall>i<length l.
                 l ! i = (if m_kind (m_steps (m_fused self) ! i) = kind_map then ''map''
                          else ''filter'',
                          m_function (m_steps (m_fused self) ! i)))"
proof -
  let ?l = "map (\<lambda>n. (kind_name (m_kind n), m_function n)) (m_steps (m_fused self))"
  have k: "kind_name k = (if k = kind_map then ''map'' else ''filter'')" for k
    by (cases k) simp_all
  have "steps_method A self = Some ?l" using assms(1) by (rule steps_method_all)
  moreover have "steps_method A' self = Some ?l" using assms(2) by (rule steps_method_all)
  moreover have "length ?l = length (m_steps (m_fused self))" by simp
  moreover have "\<forall>i<length ?l.
       ?l ! i = (if m_kind (m_steps (m_fused self) ! i) = kind_map then ''map''
                 else ''filter'',
                 m_function (m_steps (m_fused self) ! i))"
    by (simp add: k)
  ultimately show ?thesis by blast
qed

theorem steps_method_snapshot_witness:
  "allocations_succeed example_allocator 2
   \<and> steps_method example_allocator
        (example_object [\<lparr>m_function = 103, m_kind = kind_filter\<rparr>,
                         \<lparr>m_function = 100, m_kind = kind_map\<rparr>])
      = Some [(''filter'', 103), (''map'', 100)]"
proof -
  let ?self = "example_object [\<lparr>m_function = 103, m_kind = kind_filter\<rparr>,
                         \<lparr>m_function = 100, m_kind = kind_map\<rparr>]"
  have a: "allocations_succeed example_allocator (length (m_steps (m_fused ?self)))"
    by (simp add: allocations_succeed_def example_allocator_def example_object_def)
  have b: "steps_method example_allocator ?self = Some [(''filter'', 103), (''map'', 100)]"
    by (simp add: steps_method_def example_allocator_def example_object_def)
  have c: "allocations_succeed example_allocator 2"
    by (simp add: allocations_succeed_def example_allocator_def)
  from steps_method_snapshot [OF a a] b c show ?thesis
    by blast
qed

section \<open>Fusion at construction\<close>

text \<open>
  A builder call is a call of \<^verbatim>\<open>map\<close> or of \<^verbatim>\<open>filter\<close> with a callable. \<open>build\<close> issues
  the calls of a list one after the other, each on the iterator the one before
  returned, the first on \<open>tail\<close>: \<^verbatim>\<open>map(f3, filter(p2, map(f1, tail)))\<close> is the list of
  \<open>(kind_map, f1)\<close>, \<open>(kind_filter, p2)\<close>, \<open>(kind_map, f3)\<close>. A call that raises ends the
  chain.
\<close>

type_synonym builder_call = "node_kind \<times> obj"

fun build ::
    "host \<Rightarrow> obj \<Rightarrow> tail_arg \<Rightarrow> builder_call list \<Rightarrow> pystate \<Rightarrow> tail_arg option \<times> pystate"
    where
  "build H compose tail [] st = (Some tail, st)"
| "build H compose tail ((kind, function) # calls) st =
     (case new_fused H kind compose function tail st of
        (None, st1) \<Rightarrow> (None, st1)
      | (Some self, st1) \<Rightarrow> build H compose (Fused_tail self) calls st1)"

text \<open>The map steps of a pipeline and the map calls of a chain, counted.\<close>

definition count_maps :: "node list \<Rightarrow> nat" where
  "count_maps steps = length (filter (\<lambda>n. m_kind n = kind_map) steps)"

definition map_calls :: "builder_call list \<Rightarrow> nat" where
  "map_calls calls = length (filter (\<lambda>c. fst c = kind_map) calls)"

lemma node_copy_ctor_fst [simp]: "fst (node_copy_ctor n st) = n"
  by (simp add: node_copy_ctor_def)

lemma copy_steps_fst [simp]: "fst (copy_steps ns st) = ns"
proof (induction ns arbitrary: st)
  case Nil
  show ?case by simp
next
  case (Cons n ns)
  obtain n' st1 where a: "node_copy_ctor n st = (n', st1)"
    by (cases "node_copy_ctor n st")
  then have "fst (node_copy_ctor n st) = n'" by simp
  then have n: "n' = n" by simp
  obtain ns' st2 where b: "copy_steps ns st1 = (ns', st2)"
    by (cases "copy_steps ns st1")
  then have "fst (copy_steps ns st1) = ns'" by simp
  with Cons.IH have "ns' = ns" by simp
  with a b n show ?case by simp
qed

lemma err_copy_steps [simp]: "err (snd (copy_steps ns st)) = err st"
proof (induction ns arbitrary: st)
  case Nil
  show ?case by simp
next
  case (Cons n ns)
  obtain n' st1 where a: "node_copy_ctor n st = (n', st1)"
    by (cases "node_copy_ctor n st")
  then have e: "err st1 = err st" by (auto simp: node_copy_ctor_def Py_INCREF_def)
  obtain ns' st2 where b: "copy_steps ns st1 = (ns', st2)"
    by (cases "copy_steps ns st1")
  then have "err (snd (copy_steps ns st1)) = err st2" by simp
  with Cons.IH have "err st2 = err st1" by simp
  with a b e show ?case by simp
qed

text \<open>
  What the constructor over a tail does to the steps: the copy of the steps of the
  tail with the last callable replaced when compose succeeds on two maps, and with a
  new node at the end otherwise.
\<close>

definition fused_steps :: "host \<Rightarrow> obj \<Rightarrow> node list \<Rightarrow> node_kind \<Rightarrow> obj \<Rightarrow> node list" where
  "fused_steps H compose steps kind function =
     (if steps \<noteq> [] \<and> kind = kind_map \<and> m_kind (last steps) = kind_map then
        (case call2 H compose function (m_function (last steps)) of
           Some composed \<Rightarrow> butlast steps @ [\<lparr>m_function = composed, m_kind = kind_map\<rparr>]
         | None \<Rightarrow> steps @ [\<lparr>m_function = function, m_kind = kind\<rparr>])
      else steps @ [\<lparr>m_function = function, m_kind = kind\<rparr>])"

lemma m_steps_fused_ctor_tail:
  "m_steps (fst (fused_ctor_tail H function kind tail compose st)) =
     fused_steps H compose (m_steps tail) kind function"
proof -
  obtain steps st1 where c: "copy_steps (m_steps tail) st = (steps, st1)"
    by (cases "copy_steps (m_steps tail) st")
  then have "fst (copy_steps (m_steps tail) st) = steps" by simp
  then have s: "steps = m_steps tail" by simp
  have l: "\<lparr>m_function = g, m_kind = kind_map\<rparr> = n\<lparr>m_function := g\<rparr>"
    if "m_kind n = kind_map" for n :: node and g
    using that by (cases n) simp
  show ?thesis
    using c s
    by (auto simp: fused_ctor_tail_def fused_steps_def Let_def call_function2_def
        node_set_function_def emplace_back_def node_ctor_def l
        split: option.splits prod.splits)
qed

lemma m_iter_fused_ctor_tail:
  "m_iter (fst (fused_ctor_tail H function kind tail compose st)) = m_iter tail"
  by (auto simp: fused_ctor_tail_def Let_def split: option.splits prod.splits)

lemma new_fused_Fused_tail:
  "\<exists>self st'. new_fused H kind compose function (Fused_tail t) st = (Some self, st')
      \<and> m_steps (m_fused self) = fused_steps H compose (m_steps (m_fused t)) kind function
      \<and> m_iter (m_fused self) = m_iter (m_fused t)"
proof -
  obtain fu st1 where c: "fused_ctor_tail H function kind (m_fused t) compose st = (fu, st1)"
    by (cases "fused_ctor_tail H function kind (m_fused t) compose st")
  then have "fst (fused_ctor_tail H function kind (m_fused t) compose st) = fu" by simp
  then have "m_steps fu = fused_steps H compose (m_steps (m_fused t)) kind function"
    and "m_iter fu = m_iter (m_fused t)"
    using m_steps_fused_ctor_tail [of H "function" kind "m_fused t" compose st]
      m_iter_fused_ctor_tail [of H "function" kind "m_fused t" compose st]
    by simp_all
  with c show ?thesis by (simp add: new_fused_def)
qed

lemma new_fused_Other_tail:
  "new_fused H kind compose function (Other_tail ob) st = (Some self, st') \<Longrightarrow>
     m_steps (m_fused self) = [\<lparr>m_function = function, m_kind = kind\<rparr>]
     \<and> get_iter H ob = Some (m_iter (m_fused self))"
  by (auto simp: new_fused_def PyObject_GetIter_def fused_ctor_def node_ctor_def
      node_copy_ctor_def Let_def split: option.splits prod.splits)

lemma fused_steps_nonempty [simp]: "fused_steps H compose steps kind function \<noteq> []"
  by (simp add: fused_steps_def split: option.splits)

lemma count_maps_fused_steps:
  "count_maps (fused_steps H compose steps kind function)
     \<le> count_maps steps + (if kind = kind_map then 1 else 0)"
proof (cases "steps \<noteq> [] \<and> kind = kind_map \<and> m_kind (last steps) = kind_map")
  case False
  then show ?thesis by (auto simp: fused_steps_def count_maps_def)
next
  case True
  then have "steps = butlast steps @ [last steps]" by simp
  then have "count_maps steps = count_maps (butlast steps) + 1"
    using True by (metis (mono_tags, lifting) One_nat_def add.right_neutral add_Suc_right
        count_maps_def filter.simps(1) filter.simps(2) filter_append length_append list.size(3)
        list.size(4))
  with True show ?thesis
    by (auto simp: fused_steps_def count_maps_def split: option.splits)
qed

text \<open>
  Wherever two map steps are neighbours, compose failed on a callable of \<open>F\<close> over the
  callable of the first of the two.
\<close>

definition neighbours_unfused :: "host \<Rightarrow> obj \<Rightarrow> obj set \<Rightarrow> node list \<Rightarrow> bool" where
  "neighbours_unfused H compose F steps \<longleftrightarrow>
     (\<forall>i. Suc i < length steps \<and> m_kind (steps ! i) = kind_map
            \<and> m_kind (steps ! Suc i) = kind_map
          \<longrightarrow> (\<exists>f\<in>F. call2 H compose f (m_function (steps ! i)) = None))"

lemma neighbours_unfused_mono:
  "neighbours_unfused H compose F steps \<Longrightarrow> F \<subseteq> G \<Longrightarrow> neighbours_unfused H compose G steps"
  unfolding neighbours_unfused_def by blast

lemma neighbours_unfused_append:
  assumes "neighbours_unfused H compose F steps"
    and "steps \<noteq> [] \<and> m_kind (last steps) = kind_map \<and> m_kind n = kind_map
          \<longrightarrow> (\<exists>f\<in>F. call2 H compose f (m_function (last steps)) = None)"
  shows "neighbours_unfused H compose F (steps @ [n])"
  unfolding neighbours_unfused_def
proof (intro allI impI)
  fix i
  assume a: "Suc i < length (steps @ [n]) \<and> m_kind ((steps @ [n]) ! i) = kind_map
      \<and> m_kind ((steps @ [n]) ! Suc i) = kind_map"
  show "\<exists>f\<in>F. call2 H compose f (m_function ((steps @ [n]) ! i)) = None"
  proof (cases "Suc i < length steps")
    case True
    with a have "m_kind (steps ! i) = kind_map \<and> m_kind (steps ! Suc i) = kind_map"
      by (simp add: nth_append)
    with True assms(1) have "\<exists>f\<in>F. call2 H compose f (m_function (steps ! i)) = None"
      unfolding neighbours_unfused_def by blast
    with True show ?thesis by (simp add: nth_append)
  next
    case False
    with a have i: "Suc i = length steps" by simp
    then have ne: "steps \<noteq> []" by auto
    from i have li: "steps ! i = last steps"
      using ne by (metis diff_Suc_1 last_conv_nth)
    from i have ni: "(steps @ [n]) ! i = steps ! i" "(steps @ [n]) ! Suc i = n"
      by (simp_all add: nth_append)
    with a li have "m_kind (last steps) = kind_map" "m_kind n = kind_map" by simp_all
    with ne assms(2) have "\<exists>f\<in>F. call2 H compose f (m_function (last steps)) = None"
      by blast
    with ni li show ?thesis by simp
  qed
qed

lemma neighbours_unfused_replace_last:
  assumes "neighbours_unfused H compose F steps" and "steps \<noteq> []"
    and "m_kind (last steps) = kind_map"
  shows "neighbours_unfused H compose F (butlast steps @ [\<lparr>m_function = c, m_kind = kind_map\<rparr>])"
  unfolding neighbours_unfused_def
proof (intro allI impI)
  fix i
  let ?new = "butlast steps @ [\<lparr>m_function = c, m_kind = kind_map\<rparr>]"
  assume a: "Suc i < length ?new \<and> m_kind (?new ! i) = kind_map
      \<and> m_kind (?new ! Suc i) = kind_map"
  from assms(2) have len: "length ?new = length steps" by simp
  from a len have i: "i < length (butlast steps)" by simp
  then have ni: "?new ! i = steps ! i"
    by (simp add: nth_append nth_butlast)
  have k: "m_kind (steps ! Suc i) = kind_map"
  proof (cases "Suc i < length (butlast steps)")
    case True
    with a show ?thesis by (simp add: nth_append nth_butlast)
  next
    case False
    with a len have "Suc i = length steps - 1" by simp
    then have "steps ! Suc i = last steps"
      using assms(2) by (simp add: last_conv_nth)
    with assms(3) show ?thesis by simp
  qed
  from a len ni k have "Suc i < length steps \<and> m_kind (steps ! i) = kind_map
      \<and> m_kind (steps ! Suc i) = kind_map" by simp
  with assms(1) have "\<exists>f\<in>F. call2 H compose f (m_function (steps ! i)) = None"
    unfolding neighbours_unfused_def by blast
  with ni show "\<exists>f\<in>F. call2 H compose f (m_function (?new ! i)) = None" by simp
qed

lemma neighbours_unfused_fused_steps:
  assumes "neighbours_unfused H compose F steps"
    and "kind = kind_map \<longrightarrow> function \<in> F"
  shows "neighbours_unfused H compose F (fused_steps H compose steps kind function)"
proof (cases "steps \<noteq> [] \<and> kind = kind_map \<and> m_kind (last steps) = kind_map")
  case False
  have "neighbours_unfused H compose F (steps @ [\<lparr>m_function = function, m_kind = kind\<rparr>])"
    using assms(1) by (rule neighbours_unfused_append) (use False in auto)
  with False show ?thesis by (auto simp: fused_steps_def)
next
  case True
  show ?thesis
  proof (cases "call2 H compose function (m_function (last steps))")
    case None
    have "neighbours_unfused H compose F (steps @ [\<lparr>m_function = function, m_kind = kind\<rparr>])"
      using assms(1) by (rule neighbours_unfused_append) (use None True assms(2) in auto)
    with True None show ?thesis by (simp add: fused_steps_def)
  next
    case (Some c)
    have "neighbours_unfused H compose F
        (butlast steps @ [\<lparr>m_function = c, m_kind = kind_map\<rparr>])"
      using assms(1) True by (simp add: neighbours_unfused_replace_last)
    with True Some show ?thesis by (simp add: fused_steps_def)
  qed
qed

text \<open>The callables of the map calls among builder calls.\<close>

definition map_functions :: "builder_call list \<Rightarrow> obj set" where
  "map_functions calls = {f. (kind_map, f) \<in> set calls}"

lemma build_Fused_tail:
  assumes "build H compose (Fused_tail t) calls st = (r, st')"
    and "neighbours_unfused H compose F (m_steps (m_fused t))"
    and "m_steps (m_fused t) \<noteq> []"
  shows "\<exists>self. r = Some (Fused_tail self)
          \<and> m_steps (m_fused self) \<noteq> []
          \<and> m_iter (m_fused self) = m_iter (m_fused t)
          \<and> count_maps (m_steps (m_fused self))
               \<le> count_maps (m_steps (m_fused t)) + map_calls calls
          \<and> neighbours_unfused H compose (F \<union> map_functions calls) (m_steps (m_fused self))"
  using assms
proof (induction calls arbitrary: t st F)
  case Nil
  then show ?case by (auto simp: map_calls_def map_functions_def)
next
  case (Cons c calls)
  obtain kind func where c: "c = (kind, func)" by (cases c)
  obtain self st1 where n: "new_fused H kind compose func (Fused_tail t) st = (Some self, st1)"
    and s: "m_steps (m_fused self) = fused_steps H compose (m_steps (m_fused t)) kind func"
    and it: "m_iter (m_fused self) = m_iter (m_fused t)"
    using new_fused_Fused_tail [of H kind compose func t st] by blast
  from Cons.prems(1) c n have b: "build H compose (Fused_tail self) calls st1 = (r, st')"
    by simp
  let ?F = "F \<union> map_functions [c]"
  have "neighbours_unfused H compose ?F (m_steps (m_fused t))"
    using Cons.prems(2) by (rule neighbours_unfused_mono) simp
  then have inv: "neighbours_unfused H compose ?F (m_steps (m_fused self))"
    unfolding s by (rule neighbours_unfused_fused_steps) (simp add: c map_functions_def)
  have ne: "m_steps (m_fused self) \<noteq> []" by (simp add: s)
  from Cons.IH [OF b inv ne] obtain self' where r: "r = Some (Fused_tail self')"
    and ne': "m_steps (m_fused self') \<noteq> []"
    and it': "m_iter (m_fused self') = m_iter (m_fused self)"
    and cnt: "count_maps (m_steps (m_fused self'))
               \<le> count_maps (m_steps (m_fused self)) + map_calls calls"
    and inv': "neighbours_unfused H compose (?F \<union> map_functions calls)
                 (m_steps (m_fused self'))"
    by blast
  have "count_maps (m_steps (m_fused self))
      \<le> count_maps (m_steps (m_fused t)) + (if kind = kind_map then 1 else 0)"
    unfolding s by (rule count_maps_fused_steps)
  with cnt have cnt': "count_maps (m_steps (m_fused self'))
      \<le> count_maps (m_steps (m_fused t)) + map_calls (c # calls)"
    by (auto simp: c map_calls_def split: if_splits)
  have "?F \<union> map_functions calls = F \<union> map_functions (c # calls)"
    by (auto simp: map_functions_def)
  with inv' have "neighbours_unfused H compose (F \<union> map_functions (c # calls))
      (m_steps (m_fused self'))" by simp
  with r ne' it it' cnt' show ?case by simp
qed

lemma build_Other_tail:
  assumes "build H compose (Other_tail src) calls st = (Some (Fused_tail self), st')"
  shows "m_steps (m_fused self) \<noteq> []
          \<and> get_iter H src = Some (m_iter (m_fused self))
          \<and> count_maps (m_steps (m_fused self)) \<le> map_calls calls
          \<and> neighbours_unfused H compose (map_functions calls) (m_steps (m_fused self))"
proof (cases calls)
  case Nil
  with assms show ?thesis by simp
next
  case (Cons c rest)
  obtain kind func where c: "c = (kind, func)" by (cases c)
  from assms Cons c obtain first st1 where
    n: "new_fused H kind compose func (Other_tail src) st = (Some first, st1)"
    and b: "build H compose (Fused_tail first) rest st1 = (Some (Fused_tail self), st')"
    by (auto split: prod.splits option.splits)
  from n have s: "m_steps (m_fused first) = [\<lparr>m_function = func, m_kind = kind\<rparr>]"
    and g: "get_iter H src = Some (m_iter (m_fused first))"
    using new_fused_Other_tail by blast+
  have inv: "neighbours_unfused H compose {} (m_steps (m_fused first))"
    by (simp add: s neighbours_unfused_def)
  have ne: "m_steps (m_fused first) \<noteq> []" by (simp add: s)
  from build_Fused_tail [OF b inv ne] have
    "m_steps (m_fused self) \<noteq> []"
    "m_iter (m_fused self) = m_iter (m_fused first)"
    "count_maps (m_steps (m_fused self)) \<le> count_maps (m_steps (m_fused first)) + map_calls rest"
    "neighbours_unfused H compose ({} \<union> map_functions rest) (m_steps (m_fused self))"
    by auto
  moreover have "count_maps (m_steps (m_fused first)) + map_calls rest \<le> map_calls calls"
    by (simp add: s Cons c count_maps_def map_calls_def)
  moreover have "map_functions rest \<subseteq> map_functions calls"
    by (auto simp: Cons map_functions_def)
  ultimately show ?thesis
    using g neighbours_unfused_mono [of H compose "map_functions rest" "m_steps (m_fused self)"
        "map_functions calls"]
    by simp
qed

lemma err_node_ctor [simp]: "err (snd (node_ctor f k st)) = err st"
  by (simp add: node_ctor_def Py_INCREF_def)

lemma err_fused_ctor_tail_compose_failed:
  assumes "m_steps tail \<noteq> []" and "kind = kind_map"
    and "m_kind (last (m_steps tail)) = kind_map"
    and "call2 H compose func (m_function (last (m_steps tail))) = None"
  shows "\<not> err (snd (fused_ctor_tail H func kind tail compose st))"
proof -
  obtain steps st1 where c: "copy_steps (m_steps tail) st = (steps, st1)"
    by (cases "copy_steps (m_steps tail) st")
  then have "fst (copy_steps (m_steps tail) st) = steps" by simp
  then have s: "steps = m_steps tail" by simp
  show ?thesis
    using c s assms
    by (simp add: fused_ctor_tail_def Let_def call_function2_def emplace_back_def
        node_ctor_def PyErr_Clear_def Py_INCREF_def)
qed

text \<open>
  C3. A builder call on a fused iterator always returns an iterator. When the call is a
  map and the last step of the tail is a map, the engine calls
  \<open>compose(func, last callable)\<close>. When compose succeeds the new pipeline is that of
  the tail with the callable of the last node replaced by the composed one (same
  number of steps, nothing appended); when compose fails a map node on \<open>func\<close> is
  appended and the error indicator is clear afterwards. For a chain of builder calls
  on a source, the pipeline has at most as many map steps as there were map calls, and
  wherever two map steps are neighbours, compose failed on the callable of a map call
  over the callable of the first of the two.
\<close>

theorem map_over_map_fusion:
  "(m_steps (m_fused t) \<noteq> [] \<longrightarrow>
      (\<exists>self st'. new_fused H kind compose func (Fused_tail t) st = (Some self, st')
         \<and> (kind = kind_map \<and> m_kind (last (m_steps (m_fused t))) = kind_map \<longrightarrow>
              (case call2 H compose func (m_function (last (m_steps (m_fused t)))) of
                 Some composed \<Rightarrow>
                   m_steps (m_fused self) =
                     butlast (m_steps (m_fused t)) @ [\<lparr>m_function = composed, m_kind = kind_map\<rparr>]
                   \<and> length (m_steps (m_fused self)) = length (m_steps (m_fused t))
               | None \<Rightarrow>
                   m_steps (m_fused self) =
                     m_steps (m_fused t) @ [\<lparr>m_function = func, m_kind = kind_map\<rparr>]
                   \<and> \<not> err st'))))
   \<and> (build H compose (Other_tail src) calls st0 = (Some (Fused_tail self'), st1) \<longrightarrow>
        count_maps (m_steps (m_fused self')) \<le> map_calls calls
        \<and> (\<forall>i. Suc i < length (m_steps (m_fused self'))
                 \<and> m_kind (m_steps (m_fused self') ! i) = kind_map
                 \<and> m_kind (m_steps (m_fused self') ! Suc i) = kind_map
               \<longrightarrow> (\<exists>f. (kind_map, f) \<in> set calls
                      \<and> call2 H compose f (m_function (m_steps (m_fused self') ! i)) = None)))"
proof (intro conjI impI)
  assume ne: "m_steps (m_fused t) \<noteq> []"
  obtain self st' where n: "new_fused H kind compose func (Fused_tail t) st = (Some self, st')"
    and s: "m_steps (m_fused self) = fused_steps H compose (m_steps (m_fused t)) kind func"
    using new_fused_Fused_tail [of H kind compose func t st] by blast
  have "case call2 H compose func (m_function (last (m_steps (m_fused t)))) of
          Some composed \<Rightarrow>
            m_steps (m_fused self) =
              butlast (m_steps (m_fused t)) @ [\<lparr>m_function = composed, m_kind = kind_map\<rparr>]
            \<and> length (m_steps (m_fused self)) = length (m_steps (m_fused t))
        | None \<Rightarrow>
            m_steps (m_fused self) =
              m_steps (m_fused t) @ [\<lparr>m_function = func, m_kind = kind_map\<rparr>]
            \<and> \<not> err st'"
    if k: "kind = kind_map \<and> m_kind (last (m_steps (m_fused t))) = kind_map"
  proof (cases "call2 H compose func (m_function (last (m_steps (m_fused t))))")
    case None
    from n have "st' = snd (fused_ctor_tail H func kind (m_fused t) compose st)"
      by (simp add: new_fused_def split: prod.splits)
    with ne k None have "\<not> err st'"
      by (simp add: err_fused_ctor_tail_compose_failed)
    with None s ne k show ?thesis by (simp add: fused_steps_def)
  next
    case (Some composed)
    with s ne k show ?thesis by (simp add: fused_steps_def)
  qed
  with n show "\<exists>self st'. new_fused H kind compose func (Fused_tail t) st = (Some self, st')
         \<and> (kind = kind_map \<and> m_kind (last (m_steps (m_fused t))) = kind_map \<longrightarrow>
              (case call2 H compose func (m_function (last (m_steps (m_fused t)))) of
                 Some composed \<Rightarrow>
                   m_steps (m_fused self) =
                     butlast (m_steps (m_fused t)) @ [\<lparr>m_function = composed, m_kind = kind_map\<rparr>]
                   \<and> length (m_steps (m_fused self)) = length (m_steps (m_fused t))
               | None \<Rightarrow>
                   m_steps (m_fused self) =
                     m_steps (m_fused t) @ [\<lparr>m_function = func, m_kind = kind_map\<rparr>]
                   \<and> \<not> err st'))"
    by blast
next
  assume "build H compose (Other_tail src) calls st0 = (Some (Fused_tail self'), st1)"
  then show "count_maps (m_steps (m_fused self')) \<le> map_calls calls"
    using build_Other_tail by blast
next
  assume "build H compose (Other_tail src) calls st0 = (Some (Fused_tail self'), st1)"
  then have "neighbours_unfused H compose (map_functions calls) (m_steps (m_fused self'))"
    using build_Other_tail by blast
  then show "\<forall>i. Suc i < length (m_steps (m_fused self'))
                 \<and> m_kind (m_steps (m_fused self') ! i) = kind_map
                 \<and> m_kind (m_steps (m_fused self') ! Suc i) = kind_map
               \<longrightarrow> (\<exists>f. (kind_map, f) \<in> set calls
                      \<and> call2 H compose f (m_function (m_steps (m_fused self') ! i)) = None)"
    unfolding neighbours_unfused_def map_functions_def by blast
qed

theorem map_over_map_fusion_witness:
  "m_steps (m_fused (example_object [\<lparr>m_function = 101, m_kind = kind_map\<rparr>])) \<noteq> []
   \<and> (\<exists>self st'.
         new_fused example_host kind_map 7 100
           (Fused_tail (example_object [\<lparr>m_function = 101, m_kind = kind_map\<rparr>]))
           (example_state []) = (Some self, st')
         \<and> m_steps (m_fused self) = [\<lparr>m_function = 102, m_kind = kind_map\<rparr>])
   \<and> (\<exists>self' st1.
         build example_host 7 (Other_tail 50) [(kind_map, 100), (kind_map, 101)]
           (example_state []) = (Some (Fused_tail self'), st1)
         \<and> m_steps (m_fused self') =
             [\<lparr>m_function = 100, m_kind = kind_map\<rparr>, \<lparr>m_function = 101, m_kind = kind_map\<rparr>]
         \<and> count_maps (m_steps (m_fused self')) \<le> map_calls [(kind_map, 100), (kind_map, 101)]
         \<and> call2 example_host 7 101 100 = None)"
proof -
  let ?t = "example_object [\<lparr>m_function = 101, m_kind = kind_map\<rparr>]"
  have a: "m_steps (m_fused ?t) \<noteq> []" by (simp add: example_object_def)
  obtain self' st1 where b:
    "build example_host 7 (Other_tail 50) [(kind_map, 100), (kind_map, 101)]
           (example_state []) = (Some (Fused_tail self'), st1)"
    and s: "m_steps (m_fused self') =
             [\<lparr>m_function = 100, m_kind = kind_map\<rparr>, \<lparr>m_function = 101, m_kind = kind_map\<rparr>]"
    by (simp add: build_eval)
  have c: "call2 example_host 7 101 100 = None" by (simp add: example_host_def)
  have d: "call2 example_host 7 100 101 = Some 102" by (simp add: example_host_def)
  from map_over_map_fusion [of ?t example_host kind_map 7 100 "example_state []" 50
      "[(kind_map, 100), (kind_map, 101)]" "example_state []" self' st1] a b s c d
  show ?thesis
    by (auto simp: example_object_def)
qed

section \<open>One source behind a chain of iterators\<close>

lemma PyIter_Next_consumes:
  "PyIter_Next iter st = (r, st1) \<Longrightarrow>
     (\<exists>c. iters st iter = c @ iters st1 iter \<and> (r \<noteq> None \<longrightarrow> c \<noteq> []))
     \<and> (\<forall>j. j \<noteq> iter \<longrightarrow> iters st1 j = iters st j)"
  by (auto simp: PyIter_Next_def split: list.splits item.splits)

text \<open>
  A pull takes what it consumes from the front of the state of its source and touches no
  other iterator.
\<close>

lemma while_next_consumes:
  "(\<exists>c. iters st iter = c @ iters (snd (while_next d H steps iter filtered st)) iter
        \<and> (fst (while_next d H steps iter filtered st) \<noteq> None \<longrightarrow> c \<noteq> []))
   \<and> (\<forall>j. j \<noteq> iter \<longrightarrow> iters (snd (while_next d H steps iter filtered st)) j = iters st j)"
proof (induction d H steps iter filtered st rule: while_next.induct)
  case (1 d H steps iter filtered st)
  obtain r st1 where n: "PyIter_Next iter st = (r, st1)"
    by (cases "PyIter_Next iter st")
  from PyIter_Next_consumes [OF n] obtain c where
    c: "iters st iter = c @ iters st1 iter" "r \<noteq> None \<longrightarrow> c \<noteq> []"
    and o: "\<forall>j. j \<noteq> iter \<longrightarrow> iters st1 j = iters st j"
    by blast
  show ?case
  proof (cases r)
    case None
    with n c o show ?thesis
      by (simp add: while_next.simps [of d H steps iter filtered st])
  next
    case (Some element)
    have f: "iters (exit_state (for_steps d H steps element filtered st1)) = iters st1"
      by simp
    show ?thesis
    proof (cases "for_steps d H steps element filtered st1")
      case (ForReturn st2)
      with f have "iters st2 = iters st1" by simp
      with n Some ForReturn c o show ?thesis
        by (simp add: while_next.simps [of d H steps iter filtered st])
    next
      case (ForBreak st2)
      with f have i2: "iters st2 = iters st1" by simp
      let ?w = "while_next d H steps iter True st2"
      from "1.IH"(1) [OF n [symmetric] Some ForBreak] obtain c' where
        c': "iters st2 iter = c' @ iters (snd ?w) iter"
        and o': "\<forall>j. j \<noteq> iter \<longrightarrow> iters (snd ?w) j = iters st2 j"
        by blast
      from c c' i2 Some have "iters st iter = (c @ c') @ iters (snd ?w) iter" "c @ c' \<noteq> []"
        by simp_all
      then have "\<exists>c''. iters st iter = c'' @ iters (snd ?w) iter
          \<and> (fst ?w \<noteq> None \<longrightarrow> c'' \<noteq> [])"
        by blast
      moreover from o o' i2 have "\<forall>j. j \<noteq> iter \<longrightarrow> iters (snd ?w) j = iters st j"
        by simp
      ultimately show ?thesis using n Some ForBreak
        by (simp add: while_next.simps [of d H steps iter filtered st])
    next
      case (ForDone e' f' st2)
      with f have i2: "iters st2 = iters st1" by simp
      show ?thesis
      proof (cases f')
        case False
        with n Some ForDone c o i2 show ?thesis
          by (simp add: while_next.simps [of d H steps iter filtered st])
      next
        case True
        let ?w = "while_next d H steps iter f' st2"
        from True have "\<not> \<not> f'" by simp
        from "1.IH"(2) [OF n [symmetric] Some ForDone this] obtain c' where
          c': "iters st2 iter = c' @ iters (snd ?w) iter"
          and o': "\<forall>j. j \<noteq> iter \<longrightarrow> iters (snd ?w) j = iters st2 j"
          by blast
        from c c' i2 Some have "iters st iter = (c @ c') @ iters (snd ?w) iter" "c @ c' \<noteq> []"
          by simp_all
        then have "\<exists>c''. iters st iter = c'' @ iters (snd ?w) iter
            \<and> (fst ?w \<noteq> None \<longrightarrow> c'' \<noteq> [])"
          by blast
        moreover from o o' i2 have "\<forall>j. j \<noteq> iter \<longrightarrow> iters (snd ?w) j = iters st j"
          by simp
        ultimately show ?thesis using n Some ForDone True
          by (simp add: while_next.simps [of d H steps iter filtered st])
      qed
    qed
  qed
qed

lemma interpreted_next_consumes:
  assumes "interpreted_next H self st = (r, st')"
  shows "\<exists>c. iters st (m_iter self) = c @ iters st' (m_iter self) \<and> (r \<noteq> None \<longrightarrow> c \<noteq> [])"
  using while_next_consumes [of st "m_iter self" True H "m_steps self" False] assms
  by (simp add: interpreted_next_def)

lemma iters_copy_steps [simp]: "iters (snd (copy_steps ns st)) = iters st"
proof (induction ns arbitrary: st)
  case Nil
  show ?case by simp
next
  case (Cons n ns)
  obtain n' st1 where a: "node_copy_ctor n st = (n', st1)"
    by (cases "node_copy_ctor n st")
  then have e: "iters st1 = iters st" by (auto simp: node_copy_ctor_def)
  obtain ns' st2 where b: "copy_steps ns st1 = (ns', st2)"
    by (cases "copy_steps ns st1")
  then have "iters (snd (copy_steps ns st1)) = iters st2" by simp
  with Cons.IH have "iters st2 = iters st1" by simp
  with a b e show ?case by simp
qed

lemma refcnt_copy_steps: "refcnt (snd (copy_steps ns st)) x = refcnt st x + held_by ns x"
proof (induction ns arbitrary: st)
  case Nil
  show ?case by (simp add: held_by_def)
next
  case (Cons n ns)
  obtain n' st1 where a: "node_copy_ctor n st = (n', st1)"
    by (cases "node_copy_ctor n st")
  then have e: "refcnt st1 x = refcnt st x + (if m_function n = x then 1 else 0)"
    by (auto simp: node_copy_ctor_def Py_INCREF_def)
  obtain ns' st2 where b: "copy_steps ns st1 = (ns', st2)"
    by (cases "copy_steps ns st1")
  then have "refcnt (snd (copy_steps ns st1)) x = refcnt st2 x" by simp
  with Cons.IH have "refcnt st2 x = refcnt st1 x + held_by ns x" by simp
  with a b e show ?case by (simp add: held_by_def)
qed

lemma iters_fused_ctor_tail:
  "iters (snd (fused_ctor_tail H func kind tail compose st)) = iters st"
proof -
  obtain steps st1 where c: "copy_steps (m_steps tail) st = (steps, st1)"
    by (cases "copy_steps (m_steps tail) st")
  then have "iters (snd (copy_steps (m_steps tail) st)) = iters st1" by simp
  then have "iters st1 = iters st" by simp
  with c show ?thesis
    by (auto simp: fused_ctor_tail_def Let_def call_function2_def node_set_function_def
        emplace_back_def node_ctor_def PyErr_Clear_def Py_XDECREF_def
        split: option.splits prod.splits)
qed

lemma held_by_append: "held_by (xs @ ys) x = held_by xs x + held_by ys x"
  by (simp add: held_by_def)

lemma held_by_single: "held_by [n] x = (if m_function n = x then 1 else 0)"
  by (simp add: held_by_def)

text \<open>
  The pipeline built over a tail owns one reference for the callable of each of its
  nodes and one for the iterator.
\<close>

lemma refcnt_fused_ctor_tail:
  assumes "\<forall>n\<in>set (m_steps tail). m_function n \<noteq> nullptr"
  shows "refcnt (snd (fused_ctor_tail H func kind tail compose st)) x =
           refcnt st x + held_by (m_steps (fst (fused_ctor_tail H func kind tail compose st))) x
             + (if x = m_iter tail then 1 else 0)"
proof -
  obtain steps st1 where c: "copy_steps (m_steps tail) st = (steps, st1)"
    by (cases "copy_steps (m_steps tail) st")
  then have "fst (copy_steps (m_steps tail) st) = steps" by simp
  then have s: "steps = m_steps tail" by simp
  from c have "refcnt (snd (copy_steps (m_steps tail) st)) x = refcnt st1 x" by simp
  then have r1: "refcnt st1 x = refcnt st x + held_by steps x"
    by (simp add: refcnt_copy_steps s)
  show ?thesis
  proof (cases "steps \<noteq> [] \<and> kind = kind_map \<and> m_kind (last steps) = kind_map")
    case False
    with c r1 show ?thesis
      by (auto simp: fused_ctor_tail_def Let_def emplace_back_def node_ctor_def Py_INCREF_def
          held_by_append held_by_single)
  next
    case True
    then have sp: "steps = butlast steps @ [last steps]" by simp
    have hb: "held_by steps x = held_by (butlast steps) x + (if m_function (last steps) = x then 1 else 0)"
      using held_by_append [of "butlast steps" "[last steps]" x] sp
      by (simp add: held_by_single)
    from True s assms have nn: "m_function (last steps) \<noteq> nullptr" by simp
    show ?thesis
    proof (cases "call2 H compose func (m_function (last steps))")
      case None
      with True c r1 show ?thesis
        by (auto simp: fused_ctor_tail_def Let_def emplace_back_def node_ctor_def Py_INCREF_def
            call_function2_def PyErr_Clear_def held_by_append held_by_single)
    next
      case (Some composed)
      with True c r1 hb nn show ?thesis
        by (auto simp: fused_ctor_tail_def Let_def node_set_function_def Py_INCREF_def
            Py_DECREF_def Py_XDECREF_def call_function2_def held_by_append held_by_single)
    qed
  qed
qed

text \<open>
  C10. A builder call on a fused iterator \<open>t\<close> returns an iterator on the very handle
  \<open>m_iter\<close> of \<open>t\<close>: no iterator is made or advanced, and the count of the handle
  goes up by the reference the new pipeline takes (and by one more for each node of
  the new pipeline whose callable is that same object). The two iterators then draw
  from one stream: when one of them pulls and then one of them pulls again, the
  first pull takes \<open>c1\<close> from the front of the source, the second takes \<open>c2\<close> from what
  the first left, and a pull that returns an element has taken at least one item. So
  what one iterator has consumed is no longer there for the other.
\<close>

theorem extension_shares_source:
  assumes "\<forall>n\<in>set (m_steps (m_fused t)). m_function n \<noteq> nullptr"
  shows "\<exists>self st'. new_fused H kind compose func (Fused_tail t) st = (Some self, st')
      \<and> m_iter (m_fused self) = m_iter (m_fused t)
      \<and> iters st' = iters st
      \<and> refcnt st' (m_iter (m_fused t)) =
          refcnt st (m_iter (m_fused t)) + 1
            + held_by (m_steps (m_fused self)) (m_iter (m_fused t))
      \<and> (\<forall>x\<in>{m_fused t, m_fused self}. \<forall>y\<in>{m_fused t, m_fused self}.
           \<forall>H' s r1 s1 r2 s2.
             interpreted_next H' x s = (r1, s1) \<and> interpreted_next H' y s1 = (r2, s2) \<longrightarrow>
             (\<exists>c1 c2. iters s (m_iter (m_fused t)) = c1 @ c2 @ iters s2 (m_iter (m_fused t))
                    \<and> iters s1 (m_iter (m_fused t)) = c2 @ iters s2 (m_iter (m_fused t))
                    \<and> (r1 \<noteq> None \<longrightarrow> c1 \<noteq> []) \<and> (r2 \<noteq> None \<longrightarrow> c2 \<noteq> [])))"
proof -
  obtain fu st' where c: "fused_ctor_tail H func kind (m_fused t) compose st = (fu, st')"
    by (cases "fused_ctor_tail H func kind (m_fused t) compose st")
  let ?self = "\<lparr>m_fused = fu, m_next = first_next_fn, m_counter = 1,
                 m_compiled_next = next_function_default\<rparr>"
  let ?h = "m_iter (m_fused t)"
  from c have n: "new_fused H kind compose func (Fused_tail t) st = (Some ?self, st')"
    by (simp add: new_fused_def)
  from c have fu: "fu = fst (fused_ctor_tail H func kind (m_fused t) compose st)"
    and st': "st' = snd (fused_ctor_tail H func kind (m_fused t) compose st)"
    by simp_all
  have it: "m_iter fu = ?h"
    unfolding fu by (rule m_iter_fused_ctor_tail)
  have its: "iters st' = iters st"
    unfolding st' by (rule iters_fused_ctor_tail)
  have rc: "refcnt st' ?h = refcnt st ?h + 1 + held_by (m_steps fu) ?h"
    unfolding st' fu using refcnt_fused_ctor_tail [OF assms, of H func kind compose st ?h]
    by simp
  have sh: "\<exists>c1 c2. iters s ?h = c1 @ c2 @ iters s2 ?h \<and> iters s1 ?h = c2 @ iters s2 ?h
        \<and> (r1 \<noteq> None \<longrightarrow> c1 \<noteq> []) \<and> (r2 \<noteq> None \<longrightarrow> c2 \<noteq> [])"
    if x: "m_iter x = ?h" and y: "m_iter y = ?h"
      and p: "interpreted_next H' x s = (r1, s1) \<and> interpreted_next H' y s1 = (r2, s2)"
    for x y H' s r1 s1 r2 s2
  proof -
    from p interpreted_next_consumes [of H' x s r1 s1] x obtain c1 where
      c1: "iters s ?h = c1 @ iters s1 ?h" "r1 \<noteq> None \<longrightarrow> c1 \<noteq> []" by auto
    from p interpreted_next_consumes [of H' y s1 r2 s2] y obtain c2 where
      c2: "iters s1 ?h = c2 @ iters s2 ?h" "r2 \<noteq> None \<longrightarrow> c2 \<noteq> []" by auto
    from c1 c2 show ?thesis by auto
  qed
  have "\<forall>x\<in>{m_fused t, m_fused ?self}. \<forall>y\<in>{m_fused t, m_fused ?self}.
           \<forall>H' s r1 s1 r2 s2.
             interpreted_next H' x s = (r1, s1) \<and> interpreted_next H' y s1 = (r2, s2) \<longrightarrow>
             (\<exists>c1 c2. iters s ?h = c1 @ c2 @ iters s2 ?h \<and> iters s1 ?h = c2 @ iters s2 ?h
                    \<and> (r1 \<noteq> None \<longrightarrow> c1 \<noteq> []) \<and> (r2 \<noteq> None \<longrightarrow> c2 \<noteq> []))"
  proof (intro ballI allI impI)
    fix x y H' s r1 s1 r2 s2
    assume "x \<in> {m_fused t, m_fused ?self}" "y \<in> {m_fused t, m_fused ?self}"
    then have "m_iter x = ?h" "m_iter y = ?h" using it by auto
    moreover assume "interpreted_next H' x s = (r1, s1) \<and> interpreted_next H' y s1 = (r2, s2)"
    ultimately show "\<exists>c1 c2. iters s ?h = c1 @ c2 @ iters s2 ?h \<and> iters s1 ?h = c2 @ iters s2 ?h
                    \<and> (r1 \<noteq> None \<longrightarrow> c1 \<noteq> []) \<and> (r2 \<noteq> None \<longrightarrow> c2 \<noteq> [])"
      by (rule sh)
  qed
  with n it its rc show ?thesis by auto
qed

theorem extension_shares_source_witness:
  "m_steps (m_fused (example_object [\<lparr>m_function = 103, m_kind = kind_filter\<rparr>]))
     = [\<lparr>m_function = 103, m_kind = kind_filter\<rparr>]
   \<and> 103 \<noteq> nullptr
   \<and> (\<exists>self st'.
        new_fused example_host kind_map 7 100
          (Fused_tail (example_object [\<lparr>m_function = 103, m_kind = kind_filter\<rparr>]))
          (example_state [Item 1, Item 3, Item 4]) = (Some self, st')
        \<and> m_iter (m_fused self) = 50
        \<and> refcnt st' 50 = 1
        \<and> (\<exists>s1 s2.
             interpreted_next example_host
               (m_fused (example_object [\<lparr>m_function = 103, m_kind = kind_filter\<rparr>])) st'
               = (Some 3, s1)
             \<and> iters s1 50 = [Item 4]
             \<and> interpreted_next example_host (m_fused self) s1 = (Some 5, s2)
             \<and> iters s2 50 = []))"
proof -
  let ?t = "example_object [\<lparr>m_function = 103, m_kind = kind_filter\<rparr>]"
  have a: "\<forall>n\<in>set (m_steps (m_fused ?t)). m_function n \<noteq> nullptr"
    by (simp add: example_object_def nullptr_def)
  have b: "\<exists>self st'.
        new_fused example_host kind_map 7 100 (Fused_tail ?t)
          (example_state [Item 1, Item 3, Item 4]) = (Some self, st')
        \<and> m_iter (m_fused self) = 50
        \<and> refcnt st' 50 = 1
        \<and> (\<exists>s1 s2.
             interpreted_next example_host (m_fused ?t) st' = (Some 3, s1)
             \<and> iters s1 50 = [Item 4]
             \<and> interpreted_next example_host (m_fused self) s1 = (Some 5, s2)
             \<and> iters s2 50 = [])"
    by (simp add: build_eval pull_eval)
  have c: "m_steps (m_fused ?t) = [\<lparr>m_function = 103, m_kind = kind_filter\<rparr>]"
    by (simp add: example_object_def)
  have d: "103 \<noteq> nullptr" by (simp add: nullptr_def)
  from extension_shares_source [OF a, of example_host kind_map 7 100
      "example_state [Item 1, Item 3, Item 4]"] b c d
  show ?thesis by blast
qed

section \<open>The fused iterator and the naive nested iterators\<close>

text \<open>
  Pulling all elements: \<^verbatim>\<open>next\<close> is called until it returns \<^verbatim>\<open>NULL\<close>, as \<^verbatim>\<open>list(it)\<close> or a
  \<^verbatim>\<open>for\<close> loop does. The result is the list of the elements and the state the last pull
  leaves.
\<close>

function pull_all :: "host \<Rightarrow> fused \<Rightarrow> pystate \<Rightarrow> obj list \<times> pystate" where
  "pull_all H self st =
     (case interpreted_next H self st of
        (None, st1) \<Rightarrow> ([], st1)
      | (Some v, st1) \<Rightarrow>
          (case pull_all H self st1 of (vs, st2) \<Rightarrow> (v # vs, st2)))"
  by pat_completeness auto
termination
proof (relation "measure (\<lambda>(H, self, st). length (iters st (m_iter self)))")
  show "wf (measure (\<lambda>(H, self, st). length (iters st (m_iter self))))"
    by simp
next
  fix H self st x y v
  assume "(x, y) = interpreted_next H self st" "x = Some v"
  then have "interpreted_next H self st = (Some v, y)" by simp
  from interpreted_next_consumes [OF this]
  show "((H, self, y), (H, self, st)) \<in> measure (\<lambda>(H, self, st). length (iters st (m_iter self)))"
    by auto
qed

declare pull_all.simps [simp del]

text \<open>What the steps do to one element, the reference counts left out.\<close>

datatype outcome = Kept obj | Dropped | Raised

fun run_steps :: "host \<Rightarrow> node list \<Rightarrow> obj \<Rightarrow> outcome" where
  "run_steps H [] e = Kept e"
| "run_steps H (step # rest) e =
     (case call1 H (m_function step) e of
        None \<Rightarrow> Raised
      | Some a \<Rightarrow>
          (case m_kind step of
             kind_map \<Rightarrow> run_steps H rest a
           | kind_filter \<Rightarrow>
               (case is_true H a of
                  None \<Rightarrow> Raised
                | Some t \<Rightarrow> if t then run_steps H rest e else Dropped)))"

lemma for_steps_run_steps:
  "run_steps H steps e =
     (case for_steps d H steps e filtered st of
        ForReturn st' \<Rightarrow> Raised
      | ForBreak st' \<Rightarrow> Dropped
      | ForDone e' f' st' \<Rightarrow> Kept e')"
proof (induction steps arbitrary: e filtered st)
  case Nil
  show ?case by simp
next
  case (Cons step rest)
  show ?case
  proof (cases "call1 H (m_function step) e")
    case None
    then show ?thesis by (simp add: call_function_def)
  next
    case (Some a)
    show ?thesis
    proof (cases "m_kind step")
      case kind_map
      with Some Cons.IH show ?thesis by (simp add: call_function_def)
    next
      case kind_filter
      show ?thesis
      proof (cases "is_true H a")
        case None
        with Some kind_filter show ?thesis
          by (simp add: call_function_def PyObject_Not_def)
      next
        case (Some t)
        with \<open>call1 H (m_function step) e = Some a\<close> kind_filter Cons.IH show ?thesis
          by (simp add: call_function_def PyObject_Not_def Let_def)
      qed
    qed
  qed
qed

text \<open>The elements a pipeline yields over the items of its source, and whether the
  stream ends in an error.\<close>

fun stream :: "host \<Rightarrow> node list \<Rightarrow> item list \<Rightarrow> obj list \<times> bool" where
  "stream H steps [] = ([], False)"
| "stream H steps (Fail # rest) = ([], True)"
| "stream H steps (Item v # rest) =
     (case run_steps H steps v of
        Raised \<Rightarrow> ([], True)
      | Dropped \<Rightarrow> stream H steps rest
      | Kept y \<Rightarrow> (y # fst (stream H steps rest), snd (stream H steps rest)))"

text \<open>One pull, on the items alone: the result, whether it is an error, and the items left.\<close>

fun next_pure :: "host \<Rightarrow> node list \<Rightarrow> item list \<Rightarrow> obj option \<times> bool \<times> item list" where
  "next_pure H steps [] = (None, False, [])"
| "next_pure H steps (Fail # rest) = (None, True, rest)"
| "next_pure H steps (Item v # rest) =
     (case run_steps H steps v of
        Raised \<Rightarrow> (None, True, rest)
      | Dropped \<Rightarrow> next_pure H steps rest
      | Kept y \<Rightarrow> (Some y, False, rest))"

lemma stream_next_pure:
  "stream H steps items =
     (case next_pure H steps items of
        (None, e, rest) \<Rightarrow> ([], e)
      | (Some y, e, rest) \<Rightarrow> (y # fst (stream H steps rest), snd (stream H steps rest)))"
proof (induction items)
  case Nil
  show ?case by simp
next
  case (Cons i items)
  show ?case
  proof (cases i)
    case Fail
    then show ?thesis by simp
  next
    case (Item v)
    with Cons.IH show ?thesis by (cases "run_steps H steps v") simp_all
  qed
qed

lemma err_for_steps:
  "case for_steps d H steps e filtered st of
     ForReturn st' \<Rightarrow> err st'
   | ForBreak st' \<Rightarrow> err st' = err st
   | ForDone e' f' st' \<Rightarrow> err st' = err st"
proof (induction steps arbitrary: e filtered st)
  case Nil
  show ?case by simp
next
  case (Cons step rest)
  show ?case
  proof (cases "call1 H (m_function step) e")
    case None
    then show ?thesis by (simp add: call_function_def)
  next
    case (Some a)
    show ?thesis
    proof (cases "m_kind step")
      case kind_map
      define s where "s = (if d then Py_DECREF e (Py_INCREF a st) else Py_INCREF a st)"
      have es: "err s = err st" by (simp add: s_def)
      have ih: "case for_steps d H rest a filtered s of
              ForReturn st' \<Rightarrow> err st'
            | ForBreak st' \<Rightarrow> err st' = err s
            | ForDone e' f' st' \<Rightarrow> err st' = err s"
        by (rule Cons.IH)
      have fs: "for_steps d H (step # rest) e filtered st = for_steps d H rest a filtered s"
        using Some kind_map by (simp add: call_function_def s_def)
      show ?thesis
        unfolding fs using ih es by (simp split: for_exit.splits)
    next
      case kind_filter
      show ?thesis
      proof (cases "is_true H a")
        case None
        with Some kind_filter show ?thesis
          by (simp add: call_function_def PyObject_Not_def)
      next
        case (Some t)
        define s where "s = Py_DECREF a (Py_INCREF a st)"
        have es: "err s = err st" by (simp add: s_def)
        have ih: "case for_steps d H rest e False s of
              ForReturn st' \<Rightarrow> err st'
            | ForBreak st' \<Rightarrow> err st' = err s
            | ForDone e' f' st' \<Rightarrow> err st' = err s"
          by (rule Cons.IH)
        show ?thesis
        proof (cases t)
          case True
          have fs: "for_steps d H (step # rest) e filtered st = for_steps d H rest e False s"
            using Some True \<open>call1 H (m_function step) e = Some a\<close> kind_filter
            by (simp add: call_function_def PyObject_Not_def Let_def s_def)
          show ?thesis
            unfolding fs using ih es by (simp split: for_exit.splits)
        next
          case False
          have fs: "for_steps d H (step # rest) e filtered st = ForBreak (Py_DECREF e s)"
            using Some False \<open>call1 H (m_function step) e = Some a\<close> kind_filter
            by (simp add: call_function_def PyObject_Not_def Let_def s_def)
          show ?thesis
            unfolding fs using es by simp
        qed
      qed
    qed
  qed
qed

lemma PyIter_Next_cases:
  "PyIter_Next iter st = (r, st1) \<Longrightarrow>
     (iters st iter = [] \<and> r = None \<and> st1 = st)
     \<or> (\<exists>rest. iters st iter = Fail # rest \<and> r = None \<and> iters st1 iter = rest \<and> err st1)
     \<or> (\<exists>v rest. iters st iter = Item v # rest \<and> r = Some v \<and> iters st1 iter = rest
            \<and> err st1 = err st)"
  by (auto simp: PyIter_Next_def split: list.splits item.splits)

text \<open>
  A pull returns what \<open>next_pure\<close> computes from the items of the source, leaves the
  items \<open>next_pure\<close> leaves, and sets the error indicator exactly when it ends in an
  error.
\<close>

lemma while_next_next_pure:
  "(filtered \<longrightarrow> kind_filter \<in> m_kind ` set steps) \<Longrightarrow>
     fst (while_next d H steps iter filtered st) = fst (next_pure H steps (iters st iter))
     \<and> iters (snd (while_next d H steps iter filtered st)) iter
         = snd (snd (next_pure H steps (iters st iter)))
     \<and> err (snd (while_next d H steps iter filtered st))
         = (err st \<or> fst (snd (next_pure H steps (iters st iter))))"
proof (induction d H steps iter filtered st rule: while_next.induct)
  case (1 d H steps iter filtered st)
  obtain r st1 where n: "PyIter_Next iter st = (r, st1)"
    by (cases "PyIter_Next iter st")
  from PyIter_Next_cases [OF n] consider
      (empty) "iters st iter = []" "r = None" "st1 = st"
    | (fail) rest where "iters st iter = Fail # rest" "r = None" "iters st1 iter = rest" "err st1"
    | (item) v rest where "iters st iter = Item v # rest" "r = Some v" "iters st1 iter = rest"
        "err st1 = err st"
    by blast
  then show ?case
  proof cases
    case empty
    with n show ?thesis by (simp add: while_next.simps [of d H steps iter filtered st])
  next
    case fail
    with n show ?thesis by (simp add: while_next.simps [of d H steps iter filtered st])
  next
    case item
    have rs: "run_steps H steps v =
       (case for_steps d H steps v filtered st1 of
          ForReturn st' \<Rightarrow> Raised | ForBreak st' \<Rightarrow> Dropped | ForDone e' f' st' \<Rightarrow> Kept e')"
      by (rule for_steps_run_steps)
    have es: "case for_steps d H steps v filtered st1 of
          ForReturn st' \<Rightarrow> err st' | ForBreak st' \<Rightarrow> err st' = err st1
        | ForDone e' f' st' \<Rightarrow> err st' = err st1"
      by (rule err_for_steps)
    have its: "iters (exit_state (for_steps d H steps v filtered st1)) = iters st1"
      by simp
    show ?thesis
    proof (cases "for_steps d H steps v filtered st1")
      case (ForReturn st2)
      with n item rs es its show ?thesis
        by (simp add: while_next.simps [of d H steps iter filtered st])
    next
      case (ForBreak st2)
      from ForBreak have hf: "kind_filter \<in> m_kind ` set steps"
        by (rule for_steps_ForBreak_has_filter)
      from ForBreak its have i2: "iters st2 = iters st1" by simp
      from ForBreak es item have e2: "err st2 = err st" by simp
      from "1.IH"(1) [OF n [symmetric] item(2) ForBreak] hf i2 e2 item
      have "fst (while_next d H steps iter True st2) = fst (next_pure H steps rest)
        \<and> iters (snd (while_next d H steps iter True st2)) iter
            = snd (snd (next_pure H steps rest))
        \<and> err (snd (while_next d H steps iter True st2))
            = (err st \<or> fst (snd (next_pure H steps rest)))"
        by simp
      with n item rs ForBreak show ?thesis
        by (simp add: while_next.simps [of d H steps iter filtered st])
    next
      case (ForDone e' f' st2)
      then have "f' = (filtered \<and> kind_filter \<notin> m_kind ` set steps)"
        by (rule for_steps_ForDone_filtered)
      with "1.prems" have nf: "\<not> f'" by simp
      from ForDone its have i2: "iters st2 = iters st1" by simp
      from ForDone es item have e2: "err st2 = err st" by simp
      from n item rs ForDone nf i2 e2 show ?thesis
        by (simp add: while_next.simps [of d H steps iter filtered st])
    qed
  qed
qed

lemma interpreted_next_next_pure:
  "interpreted_next H self st = (r, st') \<Longrightarrow>
     r = fst (next_pure H (m_steps self) (iters st (m_iter self)))
     \<and> iters st' (m_iter self) = snd (snd (next_pure H (m_steps self) (iters st (m_iter self))))
     \<and> err st' = (err st \<or> fst (snd (next_pure H (m_steps self) (iters st (m_iter self)))))"
  using while_next_next_pure [of False "m_steps self" True H "m_iter self" st]
  by (simp add: interpreted_next_def)

lemma next_pure_Some_no_error:
  "next_pure H steps items = (Some y, e, rest) \<Longrightarrow> \<not> e"
proof (induction items)
  case Nil
  then show ?case by simp
next
  case (Cons i items)
  then show ?case
    by (cases i) (auto split: outcome.splits)
qed

lemma pull_all_stream:
  "fst (pull_all H self st) = fst (stream H (m_steps self) (iters st (m_iter self)))
   \<and> err (snd (pull_all H self st))
       = (err st \<or> snd (stream H (m_steps self) (iters st (m_iter self))))"
proof (induction H self st rule: pull_all.induct)
  case (1 H self st)
  obtain r st1 where p: "interpreted_next H self st = (r, st1)"
    by (cases "interpreted_next H self st")
  obtain e rest where np: "next_pure H (m_steps self) (iters st (m_iter self)) = (r, e, rest)"
    and i1: "iters st1 (m_iter self) = rest" and e1: "err st1 = (err st \<or> e)"
    using interpreted_next_next_pure [OF p]
    by (cases "next_pure H (m_steps self) (iters st (m_iter self))") auto
  show ?case
  proof (cases r)
    case None
    with p np e1 show ?thesis
      by (simp add: pull_all.simps [of H self st]
          stream_next_pure [of H "m_steps self" "iters st (m_iter self)"])
  next
    case (Some v)
    with np have "\<not> e" using next_pure_Some_no_error by blast
    with e1 have e1': "err st1 = err st" by simp
    from "1.IH" [OF p [symmetric] Some] i1 e1'
    have "fst (pull_all H self st1) = fst (stream H (m_steps self) rest)
      \<and> err (snd (pull_all H self st1)) = (err st \<or> snd (stream H (m_steps self) rest))"
      by simp
    with p np Some show ?thesis
      by (cases "pull_all H self st1")
        (simp add: pull_all.simps [of H self st]
          stream_next_pure [of H "m_steps self" "iters st (m_iter self)"])
  qed
qed

subsection \<open>The naive nested implementation\<close>

text \<open>
  The reference the engine is compared with: Python's own \<^verbatim>\<open>map\<close> and \<^verbatim>\<open>filter\<close>, each
  an iterator around the one below it. Seen from outside, an iterator is the list of
  the elements it yields before it stops, and whether it stops with an error.
  \<open>naive_source\<close> is the source itself, \<open>naive_map\<close> replaces each element by the result
  of the callable and stops with an error where the callable raises, \<open>naive_filter\<close>
  keeps the elements on which the result of the predicate is true and stops with an
  error where the predicate or the truth test raises. \<open>naive\<close> nests them in the order
  of the builder calls.
\<close>

fun naive_source :: "item list \<Rightarrow> obj list \<times> bool" where
  "naive_source [] = ([], False)"
| "naive_source (Fail # rest) = ([], True)"
| "naive_source (Item v # rest) = (v # fst (naive_source rest), snd (naive_source rest))"

fun naive_map :: "host \<Rightarrow> obj \<Rightarrow> obj list \<Rightarrow> bool \<Rightarrow> obj list \<times> bool" where
  "naive_map H f [] e = ([], e)"
| "naive_map H f (x # xs) e =
     (case call1 H f x of
        None \<Rightarrow> ([], True)
      | Some y \<Rightarrow> (y # fst (naive_map H f xs e), snd (naive_map H f xs e)))"

fun naive_filter :: "host \<Rightarrow> obj \<Rightarrow> obj list \<Rightarrow> bool \<Rightarrow> obj list \<times> bool" where
  "naive_filter H p [] e = ([], e)"
| "naive_filter H p (x # xs) e =
     (case call1 H p x of
        None \<Rightarrow> ([], True)
      | Some a \<Rightarrow>
          (case is_true H a of
             None \<Rightarrow> ([], True)
           | Some t \<Rightarrow>
               if t then (x # fst (naive_filter H p xs e), snd (naive_filter H p xs e))
               else naive_filter H p xs e))"

definition naive_call :: "host \<Rightarrow> builder_call \<Rightarrow> obj list \<times> bool \<Rightarrow> obj list \<times> bool" where
  "naive_call H c s =
     (case fst c of
        kind_map \<Rightarrow> naive_map H (snd c) (fst s) (snd s)
      | kind_filter \<Rightarrow> naive_filter H (snd c) (fst s) (snd s))"

fun naive :: "host \<Rightarrow> builder_call list \<Rightarrow> obj list \<times> bool \<Rightarrow> obj list \<times> bool" where
  "naive H [] s = s"
| "naive H (c # calls) s = naive H calls (naive_call H c s)"

text \<open>
  Modelled from the spec: \<^verbatim>\<open>gotenks.compose.compose\<close>, the Python function the module
  calls to fuse two maps, is not among the sources. The spec gives its contract:
  \<open>compose(outer, inner)\<close> returns a callable equivalent to \<open>x \<mapsto> outer(inner(x))\<close>,
  or fails. \<open>compose_ok H compose\<close> says that the object \<open>compose\<close> keeps this contract
  on the host \<open>H\<close>.
\<close>

definition compose_ok :: "host \<Rightarrow> obj \<Rightarrow> bool" where
  "compose_ok H compose \<longleftrightarrow>
     (\<forall>f g c. call2 H compose f g = Some c \<longrightarrow>
        (\<forall>x. call1 H c x = (case call1 H g x of None \<Rightarrow> None | Some y \<Rightarrow> call1 H f y)))"

lemma run_steps_append:
  "run_steps H (xs @ ys) e =
     (case run_steps H xs e of Kept y \<Rightarrow> run_steps H ys y | Dropped \<Rightarrow> Dropped | Raised \<Rightarrow> Raised)"
  by (induction xs arbitrary: e) (auto split: option.splits node_kind.splits)

lemma stream_Nil: "stream H [] items = naive_source items"
proof (induction items)
  case Nil
  show ?case by simp
next
  case (Cons i items)
  then show ?case by (cases i) simp_all
qed

lemma stream_cong:
  "(\<And>e. run_steps H xs e = run_steps H ys e) \<Longrightarrow> stream H xs items = stream H ys items"
proof (induction items)
  case Nil
  show ?case by simp
next
  case (Cons i items)
  then show ?case by (cases i) (simp_all split: outcome.splits)
qed

lemma stream_snoc:
  "stream H (steps @ [n]) items = naive_call H (m_kind n, m_function n) (stream H steps items)"
proof (induction items)
  case Nil
  show ?case by (simp add: naive_call_def split: node_kind.splits)
next
  case (Cons i items)
  show ?case
  proof (cases i)
    case Fail
    then show ?thesis by (simp add: naive_call_def split: node_kind.splits)
  next
    case (Item v)
    show ?thesis
    proof (cases "run_steps H steps v")
      case Raised
      with Item show ?thesis
        by (simp add: run_steps_append naive_call_def split: node_kind.splits)
    next
      case Dropped
      with Item Cons.IH show ?thesis
        by (simp add: run_steps_append)
    next
      case (Kept y)
      with Item Cons.IH show ?thesis
        by (cases "m_kind n")
          (auto simp: run_steps_append naive_call_def split: option.splits)
    qed
  qed
qed

lemma run_steps_fused_steps:
  assumes "compose_ok H compose"
  shows "run_steps H (fused_steps H compose steps kind f) e =
           run_steps H (steps @ [\<lparr>m_function = f, m_kind = kind\<rparr>]) e"
proof (cases "steps \<noteq> [] \<and> kind = kind_map \<and> m_kind (last steps) = kind_map")
  case False
  then show ?thesis by (auto simp: fused_steps_def)
next
  case True
  show ?thesis
  proof (cases "call2 H compose f (m_function (last steps))")
    case None
    with True show ?thesis by (simp add: fused_steps_def)
  next
    case (Some c)
    with assms have c: "call1 H c x =
        (case call1 H (m_function (last steps)) x of None \<Rightarrow> None | Some y \<Rightarrow> call1 H f y)"
      for x
      unfolding compose_ok_def by blast
    from True have sp: "steps = butlast steps @ [last steps]" by simp
    have "run_steps H (butlast steps @ [\<lparr>m_function = c, m_kind = kind_map\<rparr>]) e =
        run_steps H (butlast steps @ ([last steps] @ [\<lparr>m_function = f, m_kind = kind_map\<rparr>])) e"
      using True
      by (cases "run_steps H (butlast steps) e")
        (auto simp: run_steps_append [of H "butlast steps"] c split: option.splits)
    also have "butlast steps @ ([last steps] @ [\<lparr>m_function = f, m_kind = kind_map\<rparr>])
        = steps @ [\<lparr>m_function = f, m_kind = kind_map\<rparr>]"
      using sp by (metis append.assoc)
    finally show ?thesis using True Some by (simp add: fused_steps_def)
  qed
qed

lemma stream_fused_steps:
  assumes "compose_ok H compose"
  shows "stream H (fused_steps H compose steps kind f) items =
           naive_call H (kind, f) (stream H steps items)"
proof -
  have "stream H (fused_steps H compose steps kind f) items =
      stream H (steps @ [\<lparr>m_function = f, m_kind = kind\<rparr>]) items"
    by (rule stream_cong) (rule run_steps_fused_steps [OF assms])
  then show ?thesis by (simp add: stream_snoc)
qed

lemma stream_build_Fused_tail:
  assumes "compose_ok H compose"
    and "build H compose (Fused_tail t) calls st = (Some (Fused_tail self), st')"
  shows "stream H (m_steps (m_fused self)) items =
           naive H calls (stream H (m_steps (m_fused t)) items)"
  using assms(2)
proof (induction calls arbitrary: t st)
  case Nil
  then show ?case by simp
next
  case (Cons c calls)
  obtain kind func where c: "c = (kind, func)" by (cases c)
  obtain first st1 where n: "new_fused H kind compose func (Fused_tail t) st = (Some first, st1)"
    and s: "m_steps (m_fused first) = fused_steps H compose (m_steps (m_fused t)) kind func"
    using new_fused_Fused_tail [of H kind compose func t st] by blast
  from Cons.prems c n have "build H compose (Fused_tail first) calls st1 = (Some (Fused_tail self), st')"
    by simp
  then have "stream H (m_steps (m_fused self)) items =
           naive H calls (stream H (m_steps (m_fused first)) items)"
    by (rule Cons.IH)
  then show ?case
    by (simp add: s c stream_fused_steps [OF assms(1)])
qed

lemma stream_build_Other_tail:
  assumes "compose_ok H compose"
    and "build H compose (Other_tail src) calls st = (Some (Fused_tail self), st')"
  shows "stream H (m_steps (m_fused self)) items = naive H calls (naive_source items)"
proof (cases calls)
  case Nil
  with assms(2) show ?thesis by simp
next
  case (Cons c rest)
  obtain kind func where c: "c = (kind, func)" by (cases c)
  from assms(2) Cons c obtain first st1 where
    n: "new_fused H kind compose func (Other_tail src) st = (Some first, st1)"
    and b: "build H compose (Fused_tail first) rest st1 = (Some (Fused_tail self), st')"
    by (auto split: prod.splits option.splits)
  from n have s: "m_steps (m_fused first) = [] @ [\<lparr>m_function = func, m_kind = kind\<rparr>]"
    using new_fused_Other_tail by simp
  have "stream H (m_steps (m_fused first)) items = naive_call H (kind, func) (naive_source items)"
    unfolding s by (simp only: stream_snoc stream_Nil node.simps)
  with stream_build_Fused_tail [OF assms(1) b, of items] show ?thesis
    by (simp add: Cons c)
qed

lemma for_steps_break_append:
  "for_steps d H pre e filtered s = ForBreak s' \<Longrightarrow>
     for_steps d H (pre @ suffix) e filtered s = ForBreak s'"
proof (induction pre arbitrary: e filtered s)
  case Nil
  then show ?case by simp
next
  case (Cons step pre)
  then show ?case
    by (auto simp: Let_def split: prod.splits option.splits node_kind.splits if_splits)
qed

text \<open>
  The two versions of the pull routine return the same elements: they differ in the
  reference counts only.
\<close>

lemma interpreted_next_fused_cc_same_result:
  "fst (interpreted_next_fused_cc H self st) = fst (interpreted_next H self st)
   \<and> iters (snd (interpreted_next_fused_cc H self st)) (m_iter self)
       = iters (snd (interpreted_next H self st)) (m_iter self)
   \<and> err (snd (interpreted_next_fused_cc H self st)) = err (snd (interpreted_next H self st))"
  using while_next_next_pure [of False "m_steps self" True H "m_iter self" st]
    while_next_next_pure [of False "m_steps self" False H "m_iter self" st]
  by (simp add: interpreted_next_def interpreted_next_fused_cc_def)

text \<open>
  C1. Let compose keep its contract, and let a chain of builder calls on a source
  return a fused iterator. Pulling all elements from it yields exactly the elements,
  in order, that the naive nested maps and filters yield over the same source, and the
  stream ends in an error exactly when the naive one does. A filter that rejects an
  element leaves the loop over the steps at once, whatever steps follow: none of them
  is invoked.
\<close>

theorem fused_equals_naive:
  assumes "compose_ok H compose"
    and "build H compose (Other_tail src) calls st = (Some (Fused_tail self), st1)"
  shows "fst (pull_all H (m_fused self) st1)
           = fst (naive H calls (naive_source (iters st1 (m_iter (m_fused self)))))
         \<and> err (snd (pull_all H (m_fused self) st1))
           = (err st1 \<or> snd (naive H calls (naive_source (iters st1 (m_iter (m_fused self))))))
         \<and> (\<forall>d pre suffix e filtered s s'.
               for_steps d H pre e filtered s = ForBreak s' \<longrightarrow>
               for_steps d H (pre @ suffix) e filtered s = ForBreak s')"
proof -
  have "stream H (m_steps (m_fused self)) (iters st1 (m_iter (m_fused self)))
      = naive H calls (naive_source (iters st1 (m_iter (m_fused self))))"
    using assms by (rule stream_build_Other_tail)
  with pull_all_stream [of H "m_fused self" st1] for_steps_break_append show ?thesis
    by simp
qed

lemma compose_ok_example: "compose_ok example_host 7"
  by (simp add: compose_ok_def example_host_def)

theorem fused_equals_naive_witness:
  "compose_ok example_host 7
   \<and> (\<exists>self st1.
        build example_host 7 (Other_tail 50)
          [(kind_map, 101), (kind_filter, 103), (kind_map, 101), (kind_map, 100)]
          (example_state [Item 1, Item 2, Item 3, Item 4]) = (Some (Fused_tail self), st1)
        \<and> m_steps (m_fused self) =
            [\<lparr>m_function = 101, m_kind = kind_map\<rparr>, \<lparr>m_function = 103, m_kind = kind_filter\<rparr>,
             \<lparr>m_function = 102, m_kind = kind_map\<rparr>]
        \<and> iters st1 (m_iter (m_fused self)) = [Item 1, Item 2, Item 3, Item 4]
        \<and> fst (pull_all example_host (m_fused self) st1) = [9, 13, 17])
   \<and> naive example_host [(kind_map, 101), (kind_filter, 103), (kind_map, 101), (kind_map, 100)]
        (naive_source [Item 1, Item 2, Item 3, Item 4]) = ([9, 13, 17], False)"
proof -
  have a: "compose_ok example_host 7" by (rule compose_ok_example)
  obtain self st1 where b:
    "build example_host 7 (Other_tail 50)
          [(kind_map, 101), (kind_filter, 103), (kind_map, 101), (kind_map, 100)]
          (example_state [Item 1, Item 2, Item 3, Item 4]) = (Some (Fused_tail self), st1)"
    and s: "m_steps (m_fused self) =
            [\<lparr>m_function = 101, m_kind = kind_map\<rparr>, \<lparr>m_function = 103, m_kind = kind_filter\<rparr>,
             \<lparr>m_function = 102, m_kind = kind_map\<rparr>]"
    and i: "iters st1 (m_iter (m_fused self)) = [Item 1, Item 2, Item 3, Item 4]"
    by (simp add: build_eval)
  have n: "naive example_host
        [(kind_map, 101), (kind_filter, 103), (kind_map, 101), (kind_map, 100)]
        (naive_source [Item 1, Item 2, Item 3, Item 4]) = ([9, 13, 17], False)"
    by (simp add: naive_call_def example_host_def)
  from fused_equals_naive [OF a b] i n
  have "fst (pull_all example_host (m_fused self) st1) = [9, 13, 17]" by simp
  with a b s i n show ?thesis by blast
qed

section \<open>Materialization\<close>

text \<open>
  C5, at failing inputs. The pipeline is one map step on the callable \<open>100\<close> (add
  one). Over a source that yields \<open>1\<close> and then raises, \<^verbatim>\<open>to_list\<close> returns the list of
  \<open>2\<close> as its result, with the error indicator set: the error of the source is not
  returned and the partial list is not released. Pull-one on the same source returns
  \<open>2\<close> and then reports the error. The object \<open>2\<close> is left with two references, the one
  of the list and the one \<^verbatim>\<open>to_list\<close> got from the map step and never releases. Where
  \<^verbatim>\<open>PyList_Append\<close> fails, \<^verbatim>\<open>to_list\<close> returns the list without the element, again as
  its result with the error indicator set.
\<close>

theorem interpreted_to_list_returns_list_on_source_error:
  "(case interpreted_to_list example_host example_allocator
           \<lparr>m_steps = [\<lparr>m_function = 100, m_kind = kind_map\<rparr>], m_iter = 50\<rparr>
           (example_state [Item 1, Fail, Item 3]) of
      (r, st) \<Rightarrow> (r, err st, refcnt st 2, iters st 50))
     = (Some [2], True, 2, [Item 3])
   \<and> (case interpreted_next example_host
           \<lparr>m_steps = [\<lparr>m_function = 100, m_kind = kind_map\<rparr>], m_iter = 50\<rparr>
           (example_state [Item 1, Fail, Item 3]) of
      (r1, st1) \<Rightarrow>
        (case interpreted_next example_host
           \<lparr>m_steps = [\<lparr>m_function = 100, m_kind = kind_map\<rparr>], m_iter = 50\<rparr> st1 of
           (r2, st2) \<Rightarrow> (r1, err st1, r2, err st2, iters st2 50)))
     = (Some 2, False, None, True, [Item 3])
   \<and> (case interpreted_to_list example_host (example_allocator\<lparr>append_ok := (\<lambda>n. False)\<rparr>)
           \<lparr>m_steps = [\<lparr>m_function = 100, m_kind = kind_map\<rparr>], m_iter = 50\<rparr>
           (example_state [Item 1]) of
      (r, st) \<Rightarrow> (r, err st, refcnt st 2))
     = (Some [], True, 1)"
  by (simp add: to_list_eval pull_eval example_host_def example_state_def
      example_allocator_def Py_INCREF_def Py_DECREF_def)

text \<open>
  What \<^verbatim>\<open>to_list\<close> returns where every append succeeds, on the items alone: the
  list of the elements kept up to the end of the source or to the first error of the
  source, and \<open>None\<close> where a callable or a truth test raises.
\<close>

fun to_list_pure :: "host \<Rightarrow> node list \<Rightarrow> item list \<Rightarrow> obj list option" where
  "to_list_pure H steps [] = Some []"
| "to_list_pure H steps (Fail # rest) = Some []"
| "to_list_pure H steps (Item v # rest) =
     (case run_steps H steps v of
        Raised \<Rightarrow> None
      | Dropped \<Rightarrow> to_list_pure H steps rest
      | Kept y \<Rightarrow>
          (case to_list_pure H steps rest of
             None \<Rightarrow> None
           | Some ys \<Rightarrow> Some (y # ys)))"

lemma while_to_list_pure:
  "\<forall>n. append_ok A n \<Longrightarrow> (filtered \<longrightarrow> kind_filter \<in> m_kind ` set steps) \<Longrightarrow>
     fst (while_to_list d H A steps iter out filtered st) =
       (case to_list_pure H steps (iters st iter) of
          None \<Rightarrow> None
        | Some ys \<Rightarrow> Some (out @ ys))"
proof (induction d H A steps iter out filtered st rule: while_to_list.induct)
  case (1 d H A steps iter out filtered st)
  obtain r st1 where n: "PyIter_Next iter st = (r, st1)"
    by (cases "PyIter_Next iter st")
  from PyIter_Next_cases [OF n] consider
      (empty) "iters st iter = []" "r = None" "st1 = st"
    | (fail) rest where "iters st iter = Fail # rest" "r = None" "iters st1 iter = rest" "err st1"
    | (item) v rest where "iters st iter = Item v # rest" "r = Some v" "iters st1 iter = rest"
        "err st1 = err st"
    by blast
  then show ?case
  proof cases
    case empty
    with n show ?thesis
      by (simp add: while_to_list.simps [of d H A steps iter out filtered st])
  next
    case fail
    with n show ?thesis
      by (simp add: while_to_list.simps [of d H A steps iter out filtered st])
  next
    case item
    have rs: "run_steps H steps v =
       (case for_steps d H steps v filtered st1 of
          ForReturn st' \<Rightarrow> Raised | ForBreak st' \<Rightarrow> Dropped | ForDone e' f' st' \<Rightarrow> Kept e')"
      by (rule for_steps_run_steps)
    have its: "iters (exit_state (for_steps d H steps v filtered st1)) = iters st1"
      by simp
    show ?thesis
    proof (cases "for_steps d H steps v filtered st1")
      case (ForReturn st2)
      with n item rs show ?thesis
        by (simp add: while_to_list.simps [of d H A steps iter out filtered st])
    next
      case (ForBreak st2)
      from ForBreak have hf: "kind_filter \<in> m_kind ` set steps"
        by (rule for_steps_ForBreak_has_filter)
      from ForBreak its have i2: "iters st2 = iters st1" by simp
      from "1.IH"(1) [OF n [symmetric] item(2) ForBreak "1.prems"(1)] hf i2 item
      have "fst (while_to_list d H A steps iter out True st2) =
          (case to_list_pure H steps rest of None \<Rightarrow> None | Some ys \<Rightarrow> Some (out @ ys))"
        by simp
      with n item rs ForBreak show ?thesis
        by (simp add: while_to_list.simps [of d H A steps iter out filtered st])
    next
      case (ForDone e' f' st2)
      then have "f' = (filtered \<and> kind_filter \<notin> m_kind ` set steps)"
        by (rule for_steps_ForDone_filtered)
      with "1.prems" have nf: "\<not> f'" by simp
      from ForDone its have i2: "iters st2 = iters st1" by simp
      from "1.prems"(1) have ap: "PyList_Append A out e' st2 = (0, out @ [e'], Py_INCREF e' st2)"
        by (simp add: PyList_Append_def)
      from "1.IH"(2) [OF n [symmetric] item(2) ForDone nf ap [symmetric] refl "1.prems"(1)]
        nf i2 item
      have "fst (while_to_list d H A steps iter (out @ [e']) f' (Py_INCREF e' st2)) =
          (case to_list_pure H steps rest of None \<Rightarrow> None | Some ys \<Rightarrow> Some ((out @ [e']) @ ys))"
        by simp
      with n item rs ForDone nf ap show ?thesis
        by (simp add: while_to_list.simps [of d H A steps iter out filtered st]
            split: option.splits)
    qed
  qed
qed

lemma to_list_pure_stream:
  "\<not> snd (stream H steps items) \<Longrightarrow>
     to_list_pure H steps items = Some (fst (stream H steps items))"
proof (induction items)
  case Nil
  show ?case by simp
next
  case (Cons i items)
  then show ?case
    by (cases i) (auto split: outcome.splits)
qed

text \<open>
  Where no error occurs, \<^verbatim>\<open>to_list\<close> returns the list of the elements that repeated
  pulls return.
\<close>

lemma interpreted_to_list_without_errors:
  assumes "list_ok A 0" and "\<forall>n. append_ok A n"
    and "\<not> snd (stream H (m_steps self) (iters st (m_iter self)))"
  shows "fst (interpreted_to_list H A self st) = Some (fst (pull_all H self st))"
proof -
  have "fst (while_to_list True H A (m_steps self) (m_iter self) [] False st) =
      (case to_list_pure H (m_steps self) (iters st (m_iter self)) of
         None \<Rightarrow> None | Some ys \<Rightarrow> Some ([] @ ys))"
    using assms(2) by (rule while_to_list_pure) simp
  with assms(1,3) show ?thesis
    by (simp add: interpreted_to_list_def PyList_New_def to_list_pure_stream pull_all_stream)
qed

section \<open>The compiled function and the interpreter\<close>

text \<open>One block of a run.\<close>

lemma exec_block_Return:
  "map_of code b = Some (stmts, Return rv) \<Longrightarrow>
   exec_stmts H fns iter stmts fr st = Some (fr1, st1) \<Longrightarrow>
     exec_block H code fns iter b fr st = eval_rvalue H fns iter rv fr1 st1"
  by (subst exec_block.simps) simp

lemma exec_block_Jump:
  "map_of code b = Some (stmts, Jump b1) \<Longrightarrow>
   exec_stmts H fns iter stmts fr st = Some (fr1, st1) \<Longrightarrow>
     exec_block H code fns iter b fr st = exec_block H code fns iter b1 fr1 st1"
  by (subst exec_block.simps) simp

lemma exec_block_Conditional_null:
  "map_of code b = Some (stmts, Conditional_null l on_true on_false) \<Longrightarrow>
   exec_stmts H fns iter stmts fr st = Some (fr1, st1) \<Longrightarrow>
     exec_block H code fns iter b fr st =
       exec_block H code fns iter (if get_local l fr1 = None then on_true else on_false) fr1 st1"
  by (subst exec_block.simps) simp

lemma exec_block_Switch_should_mask:
  "map_of code b = Some (stmts, Switch_should_mask default_block cases) \<Longrightarrow>
   exec_stmts H fns iter stmts fr st = Some (fr1, st1) \<Longrightarrow>
     exec_block H code fns iter b fr st =
       exec_block H code fns iter
         (switch_target (l_should_mask fr1) default_block cases) fr1 st1"
  by (subst exec_block.simps) simp

text \<open>The blocks made for the steps from \<open>n\<close> on.\<close>

definition later_blocks :: "nat \<Rightarrow> block set" where
  "later_blocks n =
     {b. \<exists>m\<ge>n. b = Handle_step m \<or> b = After_applied m \<or> b = Decref_get_next m}"

lemma later_blocks_Suc: "later_blocks (Suc n) \<subseteq> later_blocks n"
  by (auto simp: later_blocks_def) 

lemma later_blocks_mem [simp]:
  "Handle_step n \<in> later_blocks n" "After_applied n \<in> later_blocks n"
  "Decref_get_next n \<in> later_blocks n"
  "Handle_step n \<notin> later_blocks (Suc n)" "After_applied n \<notin> later_blocks (Suc n)"
  "Decref_get_next n \<notin> later_blocks (Suc n)"
  "Next_element \<notin> later_blocks m" "Return_null \<notin> later_blocks m"
  "Have_element \<notin> later_blocks m" "Decref_element_return \<notin> later_blocks m"
  by (auto simp: later_blocks_def)

lemma map_of_append_notin:
  "k \<notin> fst ` set pre \<Longrightarrow> map_of (pre @ xs) k = map_of xs k"
  by (simp add: map_of_append map_add_def map_of_eq_None_iff [THEN iffD2])

lemma PyObject_Not_cases:
  "PyObject_Not H ob st = (m, st1) \<Longrightarrow> m = - 1 \<or> m = 0 \<or> m = 1"
  by (auto simp: PyObject_Not_def split: option.splits if_splits)

lemma map_of_code:
  "code = pre @ xs \<Longrightarrow> k \<notin> fst ` set pre \<Longrightarrow> map_of xs k = Some v \<Longrightarrow>
     map_of code k = Some v"
  using map_of_append_notin [of k pre xs] by simp

text \<open>
  The chain of blocks made for the steps from \<open>n\<close> on, entered at its first block with
  an element, does what the \<^verbatim>\<open>for\<close> loop of the interpreter does on these steps: it
  returns \<^verbatim>\<open>NULL\<close> where the loop returns \<^verbatim>\<open>nullptr\<close>, goes back to \<^verbatim>\<open>next_element\<close>
  where the loop breaks, and returns the element where the loop ends, each time in the
  state the loop leaves.
\<close>

lemma exec_compiled_steps:
  assumes "code = pre @ compile_steps steps n cur"
    and "fst ` set pre \<inter> insert cur (later_blocks n) = {}"
    and "cur \<notin> later_blocks n"
    and "\<forall>i<length steps. n + i < length fns \<and> fns ! (n + i) = m_function (steps ! i)"
    and "map_of code Decref_element_return = Some ([Eval_py_decref Element], Return Null)"
    and "l_element fr = Some e"
  shows "\<exists>fr'. exec_block H code fns iter cur fr st =
           (case for_steps True H steps e filtered st of
              ForReturn st' \<Rightarrow> Some (None, st')
            | ForBreak st' \<Rightarrow> exec_block H code fns iter Next_element fr' st'
            | ForDone e' f' st' \<Rightarrow> Some (Some e', st'))"
  using assms
proof (induction steps arbitrary: pre n cur fr e filtered st)
  case Nil
  from Nil.prems(2) have "cur \<notin> fst ` set pre" by auto
  with Nil.prems(1) have "map_of code cur = Some ([], Return (Local Element))"
    by (rule map_of_code) simp
  then have "exec_block H code fns iter cur fr st =
      eval_rvalue H fns iter (Local Element) fr st"
    by (rule exec_block_Return) simp
  with Nil.prems(6) show ?case by simp
next
  case (Cons step rest)
  let ?entry = "(cur, [Assign Applied (Call_function n Element)],
        Conditional_null Applied Decref_element_return (After_applied n))"
  from Cons.prems(2) have cur_pre: "cur \<notin> fst ` set pre" by auto
  have "After_applied n \<in> insert cur (later_blocks n)"
      "Decref_get_next n \<in> insert cur (later_blocks n)"
    by simp_all
  with Cons.prems(2) have aa_pre: "After_applied n \<notin> fst ` set pre"
    and dg_pre: "Decref_get_next n \<notin> fst ` set pre"
    by blast+
  from Cons.prems(3) have cur_ne: "cur \<noteq> After_applied n" "cur \<noteq> Decref_get_next n"
      "cur \<noteq> Handle_step n"
    by auto
  from Cons.prems(4) have fn0: "n < length fns" "fns ! n = m_function step"
    by force+
  have fns': "\<forall>i<length rest. Suc n + i < length fns \<and> fns ! (Suc n + i) = m_function (rest ! i)"
  proof (intro allI impI)
    fix i assume "i < length rest"
    then have "Suc i < length (step # rest)" by simp
    with Cons.prems(4) have "n + Suc i < length fns \<and> fns ! (n + Suc i) = m_function ((step # rest) ! Suc i)"
      by blast
    then show "Suc n + i < length fns \<and> fns ! (Suc n + i) = m_function (rest ! i)" by simp
  qed
  have m_cur: "map_of code cur = Some ([Assign Applied (Call_function n Element)],
        Conditional_null Applied Decref_element_return (After_applied n))"
    by (rule map_of_code [OF Cons.prems(1) cur_pre]) simp
  obtain r st1 where call: "call_function H (m_function step) e st = (r, st1)"
    by (cases "call_function H (m_function step) e st")
  have stmts_cur: "exec_stmts H fns iter [Assign Applied (Call_function n Element)] fr st =
      Some (fr\<lparr>l_applied := r\<rparr>, st1)"
    using fn0 Cons.prems(6) call by simp
  have step_cur: "exec_block H code fns iter cur fr st =
      exec_block H code fns iter
        (if r = None then Decref_element_return else After_applied n) (fr\<lparr>l_applied := r\<rparr>) st1"
    using exec_block_Conditional_null [OF m_cur stmts_cur] by simp
  show ?case
  proof (cases r)
    case None
    have "exec_block H code fns iter Decref_element_return (fr\<lparr>l_applied := r\<rparr>) st1 =
        eval_rvalue H fns iter Null (fr\<lparr>l_applied := r\<rparr>) (Py_DECREF e st1)"
      by (rule exec_block_Return [OF Cons.prems(5)]) (simp add: Cons.prems(6))
    with step_cur None call show ?thesis by simp
  next
    case (Some a)
    show ?thesis
    proof (cases "m_kind step")
      case kind_map
      let ?pre' = "pre @ [?entry,
          (After_applied n, [Eval_py_decref Element, Assign Element (Local Applied)],
            Jump (Handle_step n))]"
      have code': "code = ?pre' @ compile_steps rest (Suc n) (Handle_step n)"
        using Cons.prems(1) kind_map by simp
      have m_aa: "map_of code (After_applied n) =
          Some ([Eval_py_decref Element, Assign Element (Local Applied)], Jump (Handle_step n))"
        by (rule map_of_code [OF Cons.prems(1) aa_pre]) (use kind_map cur_ne in simp)
      have stmts_aa: "exec_stmts H fns iter
          [Eval_py_decref Element, Assign Element (Local Applied)] (fr\<lparr>l_applied := r\<rparr>) st1 =
          Some (fr\<lparr>l_applied := r, l_element := Some a\<rparr>, Py_DECREF e st1)"
        using Cons.prems(6) Some by simp
      have step_aa: "exec_block H code fns iter (After_applied n) (fr\<lparr>l_applied := r\<rparr>) st1 =
          exec_block H code fns iter (Handle_step n)
            (fr\<lparr>l_applied := r, l_element := Some a\<rparr>) (Py_DECREF e st1)"
        by (rule exec_block_Jump [OF m_aa stmts_aa])
      have disj': "fst ` set ?pre' \<inter> insert (Handle_step n) (later_blocks (Suc n)) = {}"
        using Cons.prems(2,3) later_blocks_Suc [of n] cur_ne
        by (auto simp: disjoint_iff)
      have "\<exists>fr'. exec_block H code fns iter (Handle_step n)
            (fr\<lparr>l_applied := r, l_element := Some a\<rparr>) (Py_DECREF e st1) =
           (case for_steps True H rest a filtered (Py_DECREF e st1) of
              ForReturn st' \<Rightarrow> Some (None, st')
            | ForBreak st' \<Rightarrow> exec_block H code fns iter Next_element fr' st'
            | ForDone e' f' st' \<Rightarrow> Some (Some e', st'))"
        by (rule Cons.IH [OF code' disj' _ fns' Cons.prems(5)]) simp_all
      with step_cur step_aa Some call kind_map show ?thesis by simp
    next
      case kind_filter
      let ?pre' = "pre @ [?entry,
          (After_applied n, [Assign_should_mask Applied, Eval_py_decref Applied],
            Switch_should_mask Decref_element_return
              [(0, 0, Handle_step n), (1, 1, Decref_get_next n)]),
          (Decref_get_next n, [Eval_py_decref Element], Jump Next_element)]"
      have code': "code = ?pre' @ compile_steps rest (Suc n) (Handle_step n)"
        using Cons.prems(1) kind_filter by simp
      have m_aa: "map_of code (After_applied n) =
          Some ([Assign_should_mask Applied, Eval_py_decref Applied],
            Switch_should_mask Decref_element_return
              [(0, 0, Handle_step n), (1, 1, Decref_get_next n)])"
        by (rule map_of_code [OF Cons.prems(1) aa_pre]) (use kind_filter cur_ne in simp)
      have m_dg: "map_of code (Decref_get_next n) =
          Some ([Eval_py_decref Element], Jump Next_element)"
        by (rule map_of_code [OF Cons.prems(1) dg_pre]) (use kind_filter cur_ne in simp)
      obtain m st2 where pnot: "PyObject_Not H a st1 = (m, st2)"
        by (cases "PyObject_Not H a st1")
      let ?fr2 = "fr\<lparr>l_applied := r, l_should_mask := m\<rparr>"
      have stmts_aa: "exec_stmts H fns iter
          [Assign_should_mask Applied, Eval_py_decref Applied] (fr\<lparr>l_applied := r\<rparr>) st1 =
          Some (?fr2, Py_DECREF a st2)"
        using Some pnot by simp
      have step_aa: "exec_block H code fns iter (After_applied n) (fr\<lparr>l_applied := r\<rparr>) st1 =
          exec_block H code fns iter
            (switch_target m Decref_element_return
               [(0, 0, Handle_step n), (1, 1, Decref_get_next n)]) ?fr2 (Py_DECREF a st2)"
        using exec_block_Switch_should_mask [OF m_aa stmts_aa] by simp
      have el2: "l_element ?fr2 = Some e" using Cons.prems(6) by simp
      from PyObject_Not_cases [OF pnot] consider "m = - 1" | "m = 0" | "m = 1" by blast
      then show ?thesis
      proof cases
        case 1
        have "exec_block H code fns iter Decref_element_return ?fr2 (Py_DECREF a st2) =
            eval_rvalue H fns iter Null ?fr2 (Py_DECREF e (Py_DECREF a st2))"
          by (rule exec_block_Return [OF Cons.prems(5)]) (simp add: el2)
        with step_cur step_aa Some call kind_filter pnot 1 show ?thesis
          by (simp add: Let_def)
      next
        case 2
        have disj': "fst ` set ?pre' \<inter> insert (Handle_step n) (later_blocks (Suc n)) = {}"
          using Cons.prems(2,3) later_blocks_Suc [of n] cur_ne
          by (auto simp: disjoint_iff)
        have "\<exists>fr'. exec_block H code fns iter (Handle_step n) ?fr2 (Py_DECREF a st2) =
           (case for_steps True H rest e False (Py_DECREF a st2) of
              ForReturn st' \<Rightarrow> Some (None, st')
            | ForBreak st' \<Rightarrow> exec_block H code fns iter Next_element fr' st'
            | ForDone e' f' st' \<Rightarrow> Some (Some e', st'))"
          by (rule Cons.IH [OF code' disj' _ fns' Cons.prems(5) el2]) simp
        with step_cur step_aa Some call kind_filter pnot 2 show ?thesis
          by (simp add: Let_def)
      next
        case 3
        have "exec_block H code fns iter (Decref_get_next n) ?fr2 (Py_DECREF a st2) =
            exec_block H code fns iter Next_element ?fr2 (Py_DECREF e (Py_DECREF a st2))"
          by (rule exec_block_Jump [OF m_dg]) (simp add: el2)
        with step_cur step_aa Some call kind_filter pnot 3 show ?thesis
          by (auto simp: Let_def)
      qed
    qed
  qed
qed

lemma compile_blocks_fixed:
  "map_of (compile_blocks steps) Next_element =
     Some ([Assign Element Pyiter_next_iter], Conditional_null Element Return_null Have_element)"
  "map_of (compile_blocks steps) Return_null = Some ([], Return Null)"
  "map_of (compile_blocks steps) Decref_element_return =
     Some ([Eval_py_decref Element], Return Null)"
  by (simp_all add: compile_blocks_def)

lemma exec_have_element:
  assumes "l_element fr = Some e"
  shows "\<exists>fr'. exec_block H (compile_blocks steps) (map m_function steps) iter Have_element fr st =
           (case for_steps True H steps e filtered st of
              ForReturn st' \<Rightarrow> Some (None, st')
            | ForBreak st' \<Rightarrow>
                exec_block H (compile_blocks steps) (map m_function steps) iter Next_element fr' st'
            | ForDone e' f' st' \<Rightarrow> Some (Some e', st'))"
proof (rule exec_compiled_steps [where n = 0 and pre = "[(Next_element, [Assign Element Pyiter_next_iter],
         Conditional_null Element Return_null Have_element),
      (Return_null, [], Return Null),
      (Decref_element_return, [Eval_py_decref Element], Return Null)]"])
  show "compile_blocks steps =
      [(Next_element, [Assign Element Pyiter_next_iter],
         Conditional_null Element Return_null Have_element),
      (Return_null, [], Return Null),
      (Decref_element_return, [Eval_py_decref Element], Return Null)]
      @ compile_steps steps 0 Have_element"
    by (simp add: compile_blocks_def)
  show "fst ` set [(Next_element, [Assign Element Pyiter_next_iter],
         Conditional_null Element Return_null Have_element),
      (Return_null, [], Return Null),
      (Decref_element_return, [Eval_py_decref Element], Return Null)]
      \<inter> insert Have_element (later_blocks 0) = {}"
    by simp
  show "Have_element \<notin> later_blocks 0" by simp
  show "\<forall>i<length steps. 0 + i < length (map m_function steps)
      \<and> map m_function steps ! (0 + i) = m_function (steps ! i)"
    by simp
  show "map_of (compile_blocks steps) Decref_element_return =
      Some ([Eval_py_decref Element], Return Null)"
    by (rule compile_blocks_fixed)
  show "l_element fr = Some e" by (rule assms)
qed

text \<open>
  The compiled function, entered at \<^verbatim>\<open>next_element\<close> with any locals, returns, and
  returns what the \<^verbatim>\<open>while\<close> loop of the interpreter returns, in the same state.
\<close>

lemma exec_next_element:
  "d \<Longrightarrow> (filtered \<longrightarrow> kind_filter \<in> m_kind ` set steps) \<Longrightarrow>
     exec_block H (compile_blocks steps) (map m_function steps) iter Next_element fr st =
       Some (while_next d H steps iter filtered st)"
proof (induction d H steps iter filtered st arbitrary: fr rule: while_next.induct)
  case (1 d H steps iter filtered st)
  let ?code = "compile_blocks steps" and ?fns = "map m_function steps"
  from "1.prems"(1) have d: "d = True" by simp
  obtain r st1 where n: "PyIter_Next iter st = (r, st1)"
    by (cases "PyIter_Next iter st")
  have stmts: "exec_stmts H ?fns iter [Assign Element Pyiter_next_iter] fr st =
      Some (fr\<lparr>l_element := r\<rparr>, st1)"
    using n by simp
  have first: "exec_block H ?code ?fns iter Next_element fr st =
      exec_block H ?code ?fns iter (if r = None then Return_null else Have_element)
        (fr\<lparr>l_element := r\<rparr>) st1"
    using exec_block_Conditional_null [OF compile_blocks_fixed(1) stmts] by simp
  show ?case
  proof (cases r)
    case None
    have "exec_block H ?code ?fns iter Return_null (fr\<lparr>l_element := r\<rparr>) st1 =
        eval_rvalue H ?fns iter Null (fr\<lparr>l_element := r\<rparr>) st1"
      by (rule exec_block_Return [OF compile_blocks_fixed(2)]) simp
    with first None n show ?thesis
      by (simp add: while_next.simps [of d H steps iter filtered st])
  next
    case (Some element)
    obtain fr' where have_el:
      "exec_block H ?code ?fns iter Have_element (fr\<lparr>l_element := r\<rparr>) st1 =
           (case for_steps d H steps element filtered st1 of
              ForReturn st' \<Rightarrow> Some (None, st')
            | ForBreak st' \<Rightarrow> exec_block H ?code ?fns iter Next_element fr' st'
            | ForDone e' f' st' \<Rightarrow> Some (Some e', st'))"
      using exec_have_element [of "fr\<lparr>l_element := r\<rparr>" element H steps iter st1 filtered] Some
      unfolding d by auto
    show ?thesis
    proof (cases "for_steps d H steps element filtered st1")
      case (ForReturn st2)
      with first have_el Some n show ?thesis
        by (simp add: while_next.simps [of d H steps iter filtered st])
    next
      case (ForBreak st2)
      from ForBreak have hf: "kind_filter \<in> m_kind ` set steps"
        by (rule for_steps_ForBreak_has_filter)
      have "exec_block H ?code ?fns iter Next_element fr' st2 =
          Some (while_next d H steps iter True st2)"
        using "1.IH"(1) [OF n [symmetric] Some ForBreak "1.prems"(1)] hf by simp
      with first have_el Some n ForBreak show ?thesis
        by (simp add: while_next.simps [of d H steps iter filtered st])
    next
      case (ForDone e' f' st2)
      then have "f' = (filtered \<and> kind_filter \<notin> m_kind ` set steps)"
        by (rule for_steps_ForDone_filtered)
      with "1.prems"(2) have nf: "\<not> f'" by simp
      with first have_el Some n ForDone show ?thesis
        by (simp add: while_next.simps [of d H steps iter filtered st])
    qed
  qed
qed

lemma pin_functions_fst [simp]: "fst (pin_functions steps st) = map m_function steps"
proof (induction steps arbitrary: st)
  case Nil
  show ?case by simp
next
  case (Cons step rest)
  obtain obs st1 where p: "pin_functions rest (Py_INCREF (m_function step) st) = (obs, st1)"
    by (cases "pin_functions rest (Py_INCREF (m_function step) st)")
  then have "fst (pin_functions rest (Py_INCREF (m_function step) st)) = obs" by simp
  with Cons.IH have "obs = map m_function rest" by simp
  with p show ?case by simp
qed

text \<open>
  C4. Let \<^verbatim>\<open>jit::compile\<close> succeed on the steps of a pipeline. On every host state the
  compiled \<^verbatim>\<open>next\<close> returns, and it returns what the interpreted pull-one of
  \<^verbatim>\<open>src/unnamed/part_000\<close> returns: the same element, or \<^verbatim>\<open>NULL\<close> for exhaustion or for
  an error at the same point, and it leaves the same state: the source as far advanced,
  the same reference counts, the same error indicator.
\<close>

theorem compiled_next_equals_interpreted_next:
  "compile H (m_steps (m_fused self)) st0 = (Some nf, st1) \<longrightarrow>
     compiled_next H' (self\<lparr>m_compiled_next := nf\<rparr>) st =
       object_interpreted_next H' (self\<lparr>m_compiled_next := nf\<rparr>) st"
proof
  assume c: "compile H (m_steps (m_fused self)) st0 = (Some nf, st1)"
  let ?steps = "m_steps (m_fused self)"
  obtain obs st' where p: "pin_functions ?steps st0 = (obs, st')"
    by (cases "pin_functions ?steps st0")
  then have "fst (pin_functions ?steps st0) = obs" by simp
  then have obs: "obs = map m_function ?steps" by simp
  from c p obs have nf: "nf = \<lparr>m_gcc_jit_result = Some (compile_blocks ?steps),
      m_functions = map m_function ?steps\<rparr>"
    by (auto simp: compile_def next_function_ctor_def split: if_splits)
  have "exec_block H' (compile_blocks ?steps) (map m_function ?steps) (m_iter (m_fused self))
      Next_element \<lparr>l_element = None, l_applied = None, l_should_mask = 0\<rparr> st =
      Some (while_next True H' ?steps (m_iter (m_fused self)) False st)"
    by (rule exec_next_element) simp_all
  with nf show "compiled_next H' (self\<lparr>m_compiled_next := nf\<rparr>) st =
       object_interpreted_next H' (self\<lparr>m_compiled_next := nf\<rparr>) st"
    by (simp add: compiled_next_def object_interpreted_next_def next_function_call_def
        interpreted_next_def split: prod.splits)
qed

theorem compiled_next_equals_interpreted_next_witness:
  "\<exists>nf st1.
     compile example_host
       (m_steps (m_fused (example_object [\<lparr>m_function = 103, m_kind = kind_filter\<rparr>,
                                          \<lparr>m_function = 100, m_kind = kind_map\<rparr>])))
       (example_state []) = (Some nf, st1)
     \<and> (\<exists>st'. compiled_next example_host
           ((example_object [\<lparr>m_function = 103, m_kind = kind_filter\<rparr>,
                             \<lparr>m_function = 100, m_kind = kind_map\<rparr>])\<lparr>m_compiled_next := nf\<rparr>)
           (example_state [Item 1, Item 3, Item 4])
         = Some ((Some 4,
                  (example_object [\<lparr>m_function = 103, m_kind = kind_filter\<rparr>,
                             \<lparr>m_function = 100, m_kind = kind_map\<rparr>])\<lparr>m_compiled_next := nf\<rparr>), st')
         \<and> iters st' 50 = [Item 4] \<and> refcnt st' 1 = 0 \<and> refcnt st' 3 = 0 \<and> refcnt st' 4 = 1)"
proof -
  let ?self = "example_object [\<lparr>m_function = 103, m_kind = kind_filter\<rparr>,
                               \<lparr>m_function = 100, m_kind = kind_map\<rparr>]"
  obtain nf st1 where "next_function_ctor (compile_blocks (m_steps (m_fused ?self)))
      (m_steps (m_fused ?self)) (example_state []) = (nf, st1)"
    by (cases "next_function_ctor (compile_blocks (m_steps (m_fused ?self)))
      (m_steps (m_fused ?self)) (example_state [])")
  then have c:
    "compile example_host (m_steps (m_fused ?self)) (example_state []) = (Some nf, st1)"
    by (simp add: compile_def example_host_def)
  have "\<exists>st'. object_interpreted_next example_host (?self\<lparr>m_compiled_next := nf\<rparr>)
           (example_state [Item 1, Item 3, Item 4])
         = Some ((Some 4, ?self\<lparr>m_compiled_next := nf\<rparr>), st')
         \<and> iters st' 50 = [Item 4] \<and> refcnt st' 1 = 0 \<and> refcnt st' 3 = 0 \<and> refcnt st' 4 = 1"
    by (simp add: object_interpreted_next_def example_object_def example_host_def
        example_state_def pull_eval Py_INCREF_def Py_DECREF_def)
  with compiled_next_equals_interpreted_next [of example_host ?self "example_state []" nf st1
      example_host "example_state [Item 1, Item 3, Item 4]"] c
  show ?thesis by auto
qed

section \<open>The dispatcher\<close>

text \<open>
  A compiled function of the steps, called on the source, returns what the loop of the
  pull routine returns, in the same state, and it always returns.
\<close>

lemma next_function_call_compiled:
  "next_function_call H
     \<lparr>m_gcc_jit_result = Some (compile_blocks steps), m_functions = map m_function steps\<rparr>
     iter st = Some (while_next True H steps iter False st)"
  unfolding next_function_call_def
  using exec_next_element [of True False steps H iter
      "\<lparr>l_element = None, l_applied = None, l_should_mask = 0\<rparr>" st]
  by simp

text \<open>What \<^verbatim>\<open>compile\<close> returns where it succeeds, and the part of the state it keeps.\<close>

lemma compile_Some:
  "compile H steps st = (Some nf, st1) \<Longrightarrow>
     nf = \<lparr>m_gcc_jit_result = Some (compile_blocks steps), m_functions = map m_function steps\<rparr>"
proof -
  assume c: "compile H steps st = (Some nf, st1)"
  obtain obs st' where p: "pin_functions steps st = (obs, st')"
    by (cases "pin_functions steps st")
  then have "fst (pin_functions steps st) = obs" by simp
  then have "obs = map m_function steps" by simp
  with c p show ?thesis
    by (auto simp: compile_def next_function_ctor_def split: if_splits)
qed

lemma compile_jit_ok:
  "jit_ok H \<Longrightarrow> \<exists>nf st1. compile H steps st = (Some nf, st1)"
  by (simp add: compile_def split: prod.splits)

text \<open>
  A pull through \<^verbatim>\<open>compiled_next\<close>, where the stored function is the compiled
  function of the steps of the pipeline.
\<close>

lemma compiled_next_total:
  assumes "m_compiled_next self =
      \<lparr>m_gcc_jit_result = Some (compile_blocks (m_steps (m_fused self))),
       m_functions = map m_function (m_steps (m_fused self))\<rparr>"
  shows "compiled_next H self st =
      Some ((fst (interpreted_next H (m_fused self) st), self),
            snd (interpreted_next H (m_fused self) st))"
  using assms next_function_call_compiled [of H "m_steps (m_fused self)" "m_iter (m_fused self)" st]
  by (simp add: compiled_next_def interpreted_next_def split: prod.splits)

text \<open>Pinning the callables and compiling leave the iterators as they are.\<close>

lemma pin_functions_iters: "iters (snd (pin_functions steps st)) = iters st"
proof (induction steps arbitrary: st)
  case Nil
  show ?case by simp
next
  case (Cons step rest)
  have "iters (snd (pin_functions rest (Py_INCREF (m_function step) st))) =
      iters (Py_INCREF (m_function step) st)"
    by (rule Cons.IH)
  then show ?case by (auto simp: Py_INCREF_def split: prod.splits)
qed

lemma compile_iters:
  assumes "compile H steps st = (Some nf, st1)"
  shows "iters st1 = iters st"
proof -
  from assms have "st1 = snd (pin_functions steps st)"
    by (auto simp: compile_def next_function_ctor_def split: if_splits prod.splits)
  then show ?thesis by (simp add: pin_functions_iters)
qed

text \<open>Ten map steps on the callable \<open>100\<close>.\<close>

definition ten_maps :: "node list" where
  "ten_maps = replicate 10 \<lparr>m_function = 100, m_kind = kind_map\<rparr>"

lemma ten_maps_eval:
  "ten_maps =
     [\<lparr>m_function = 100, m_kind = kind_map\<rparr>, \<lparr>m_function = 100, m_kind = kind_map\<rparr>,
      \<lparr>m_function = 100, m_kind = kind_map\<rparr>, \<lparr>m_function = 100, m_kind = kind_map\<rparr>,
      \<lparr>m_function = 100, m_kind = kind_map\<rparr>, \<lparr>m_function = 100, m_kind = kind_map\<rparr>,
      \<lparr>m_function = 100, m_kind = kind_map\<rparr>, \<lparr>m_function = 100, m_kind = kind_map\<rparr>,
      \<lparr>m_function = 100, m_kind = kind_map\<rparr>, \<lparr>m_function = 100, m_kind = kind_map\<rparr>]"
  by (simp add: ten_maps_def numeral_eq_Suc)

lemma ten_maps_pull:
  "iters st 50 = [Item 5] \<Longrightarrow> call1 H 100 = (\<lambda>x. Some (x + 1)) \<Longrightarrow>
     fst (interpreted_next H \<lparr>m_steps = ten_maps, m_iter = 50\<rparr> st) = Some 15"
  by (simp add: ten_maps_eval pull_eval Py_INCREF_def Py_DECREF_def split: prod.splits)

text \<open>
  C7, as amended. While \<^verbatim>\<open>m_next\<close> is \<^verbatim>\<open>first_next\<close> a pull decides, and it returns
  in every case. With fewer than 10 steps, or with 10 steps or more and a length hint
  of the source below 50000000, the pull sets \<^verbatim>\<open>m_next\<close> to the interpreted routine
  and is a pull of that routine. With 10 steps or more and a length hint that raised,
  the hint counts as \<open>-1\<close>: the pull sets \<^verbatim>\<open>m_next\<close> to the interpreted routine and
  runs it with the error of the hint pending; the statement leaves its result open.
  With 10 steps or more and a length hint of 50000000 or more the pull compiles: on
  success it stores the compiled function \<open>nf\<close>, sets \<^verbatim>\<open>m_next\<close> to the compiled
  routine, and returns the element and the state the interpreted routine returns after
  the compilation; on failure it returns the error and leaves the object as it was,
  \<^verbatim>\<open>m_next\<close> still \<^verbatim>\<open>first_next\<close>. Once \<^verbatim>\<open>m_next\<close> is the interpreted routine, or the
  compiled routine with a compiled function of the steps, a pull returns what the
  interpreted routine returns and leaves the object as it is: the decision is not
  taken again.
\<close>

theorem first_next_decides:
  "(m_next self = first_next_fn \<and> length (m_steps (m_fused self)) < 10
     \<longrightarrow> iternext H self st =
           Some ((fst (interpreted_next H (m_fused self) st),
                  self\<lparr>m_next := interpreted_next_fn\<rparr>),
                 snd (interpreted_next H (m_fused self) st)))
   \<and> (m_next self = first_next_fn \<and> \<not> length (m_steps (m_fused self)) < 10
      \<and> length_hint H (m_iter (m_fused self)) = Some n \<and> n < 50000000
     \<longrightarrow> iternext H self st =
           Some ((fst (interpreted_next H (m_fused self) st),
                  self\<lparr>m_next := interpreted_next_fn\<rparr>),
                 snd (interpreted_next H (m_fused self) st)))
   \<and> (m_next self = first_next_fn \<and> \<not> length (m_steps (m_fused self)) < 10
      \<and> length_hint H (m_iter (m_fused self)) = None
     \<longrightarrow> (\<exists>r st'. iternext H self st = Some ((r, self\<lparr>m_next := interpreted_next_fn\<rparr>), st')))
   \<and> (m_next self = first_next_fn \<and> \<not> length (m_steps (m_fused self)) < 10
      \<and> length_hint H (m_iter (m_fused self)) = Some n \<and> \<not> n < 50000000 \<and> jit_ok H
     \<longrightarrow> (\<exists>nf st1.
            compile H (m_steps (m_fused self)) st = (Some nf, st1)
            \<and> iternext H self st =
                Some ((fst (interpreted_next H (m_fused self) st1),
                       self\<lparr>m_compiled_next := nf, m_next := compiled_next_fn\<rparr>),
                      snd (interpreted_next H (m_fused self) st1))))
   \<and> (m_next self = first_next_fn \<and> \<not> length (m_steps (m_fused self)) < 10
      \<and> length_hint H (m_iter (m_fused self)) = Some n \<and> \<not> n < 50000000 \<and> \<not> jit_ok H
     \<longrightarrow> iternext H self st = Some ((None, self), st\<lparr>err := True\<rparr>))
   \<and> (m_next self = interpreted_next_fn
     \<longrightarrow> iternext H self st =
           Some ((fst (interpreted_next H (m_fused self) st), self),
                 snd (interpreted_next H (m_fused self) st)))
   \<and> (m_next self = compiled_next_fn
      \<and> compile H0 (m_steps (m_fused self)) st0 = (Some (m_compiled_next self), st0')
     \<longrightarrow> iternext H self st =
           Some ((fst (interpreted_next H (m_fused self) st), self),
                 snd (interpreted_next H (m_fused self) st)))"
proof (intro conjI impI)
  assume "m_next self = first_next_fn \<and> length (m_steps (m_fused self)) < 10"
  then show "iternext H self st =
           Some ((fst (interpreted_next H (m_fused self) st),
                  self\<lparr>m_next := interpreted_next_fn\<rparr>),
                 snd (interpreted_next H (m_fused self) st))"
    by (simp add: iternext_def first_next_def object_interpreted_next_def
        compile_threshold_steps_def split: prod.splits)
next
  assume "m_next self = first_next_fn \<and> \<not> length (m_steps (m_fused self)) < 10
      \<and> length_hint H (m_iter (m_fused self)) = Some n \<and> n < 50000000"
  then show "iternext H self st =
           Some ((fst (interpreted_next H (m_fused self) st),
                  self\<lparr>m_next := interpreted_next_fn\<rparr>),
                 snd (interpreted_next H (m_fused self) st))"
    by (simp add: iternext_def first_next_def object_interpreted_next_def
        PyObject_LengthHint_def compile_threshold_steps_def compile_threshold_size_def
        split: prod.splits)
next
  assume a: "m_next self = first_next_fn \<and> \<not> length (m_steps (m_fused self)) < 10
      \<and> length_hint H (m_iter (m_fused self)) = None"
  let ?p = "interpreted_next H (m_fused self) (st\<lparr>err := True\<rparr>)"
  from a have "iternext H self st =
      Some ((fst ?p, self\<lparr>m_next := interpreted_next_fn\<rparr>), snd ?p)"
    by (simp add: iternext_def first_next_def object_interpreted_next_def
        PyObject_LengthHint_def compile_threshold_steps_def compile_threshold_size_def
        split: prod.splits)
  then show "\<exists>r st'. iternext H self st =
      Some ((r, self\<lparr>m_next := interpreted_next_fn\<rparr>), st')"
    by blast
next
  assume a: "m_next self = first_next_fn \<and> \<not> length (m_steps (m_fused self)) < 10
      \<and> length_hint H (m_iter (m_fused self)) = Some n \<and> \<not> n < 50000000 \<and> jit_ok H"
  then obtain nf st1 where c: "compile H (m_steps (m_fused self)) st = (Some nf, st1)"
    using compile_jit_ok [of H "m_steps (m_fused self)" st] by blast
  then have nf: "nf = \<lparr>m_gcc_jit_result = Some (compile_blocks (m_steps (m_fused self))),
       m_functions = map m_function (m_steps (m_fused self))\<rparr>"
    by (rule compile_Some)
  let ?self' = "self\<lparr>m_compiled_next := nf, m_next := compiled_next_fn\<rparr>"
  have "compiled_next H ?self' st1 =
      Some ((fst (interpreted_next H (m_fused ?self') st1), ?self'),
            snd (interpreted_next H (m_fused ?self') st1))"
    by (rule compiled_next_total) (simp add: nf)
  with a c have "iternext H self st =
      Some ((fst (interpreted_next H (m_fused self) st1), ?self'),
            snd (interpreted_next H (m_fused self) st1))"
    by (simp add: iternext_def first_next_def fused_compile_def PyObject_LengthHint_def
        compile_threshold_steps_def compile_threshold_size_def)
  with c show "\<exists>nf st1.
            compile H (m_steps (m_fused self)) st = (Some nf, st1)
            \<and> iternext H self st =
                Some ((fst (interpreted_next H (m_fused self) st1),
                       self\<lparr>m_compiled_next := nf, m_next := compiled_next_fn\<rparr>),
                      snd (interpreted_next H (m_fused self) st1))"
    by blast
next
  assume "m_next self = first_next_fn \<and> \<not> length (m_steps (m_fused self)) < 10
      \<and> length_hint H (m_iter (m_fused self)) = Some n \<and> \<not> n < 50000000 \<and> \<not> jit_ok H"
  then show "iternext H self st = Some ((None, self), st\<lparr>err := True\<rparr>)"
    by (simp add: iternext_def first_next_def fused_compile_def compile_def
        PyObject_LengthHint_def compile_threshold_steps_def compile_threshold_size_def)
next
  assume "m_next self = interpreted_next_fn"
  then show "iternext H self st =
           Some ((fst (interpreted_next H (m_fused self) st), self),
                 snd (interpreted_next H (m_fused self) st))"
    by (simp add: iternext_def object_interpreted_next_def split: prod.splits)
next
  assume a: "m_next self = compiled_next_fn
      \<and> compile H0 (m_steps (m_fused self)) st0 = (Some (m_compiled_next self), st0')"
  then have "m_compiled_next self =
      \<lparr>m_gcc_jit_result = Some (compile_blocks (m_steps (m_fused self))),
       m_functions = map m_function (m_steps (m_fused self))\<rparr>"
    using compile_Some by blast
  then have "compiled_next H self st =
      Some ((fst (interpreted_next H (m_fused self) st), self),
            snd (interpreted_next H (m_fused self) st))"
    by (rule compiled_next_total)
  with a show "iternext H self st =
           Some ((fst (interpreted_next H (m_fused self) st), self),
                 snd (interpreted_next H (m_fused self) st))"
    by (simp add: iternext_def)
qed

text \<open>
  C7 as stated fails where the compilation fails. A pipeline of ten map steps over a
  source with a length hint of 50000000 reaches the compiler. On a host where
  libgccjit fails, the first pull returns the error and \<^verbatim>\<open>m_next\<close> is still
  \<^verbatim>\<open>first_next\<close>. The caller handles the error, which clears the indicator, and
  pulls again, now on a host where libgccjit works: the second pull decides again, it
  compiles and sets \<^verbatim>\<open>m_next\<close> to the compiled routine.
\<close>

theorem first_next_decides_again_after_failure:
  "(case iternext (example_host\<lparr>length_hint := (\<lambda>ob. Some 50000000), jit_ok := False\<rparr>)
           (example_object ten_maps) (example_state []) of
      None \<Rightarrow> None
    | Some ((r1, self1), st1) \<Rightarrow>
        (case iternext (example_host\<lparr>length_hint := (\<lambda>ob. Some 50000000), jit_ok := True\<rparr>)
                self1 (st1\<lparr>err := False\<rparr>) of
           None \<Rightarrow> None
         | Some ((r2, self2), st2) \<Rightarrow>
             Some (r1, err st1, m_next self1, r2, err st2, m_next self2)))
   = Some (None, True, first_next_fn, None, False, compiled_next_fn)"
  by (simp add: iternext_def first_next_def fused_compile_def compile_def
      PyObject_LengthHint_def
      compile_threshold_steps_def compile_threshold_size_def example_object_def
      example_host_def example_state_def ten_maps_def compiled_next_def
      next_function_call_def next_function_ctor_def compile_blocks_def
      exec_block.simps PyIter_Next_def numeral_eq_Suc split: prod.splits)

text \<open>
  The decision at concrete pipelines over the source \<open>[5]\<close>: one map step; ten map
  steps with a length hint of 4; ten map steps with a length hint that raises; ten map
  steps with a length hint of 50000000, where the compiler works and where it fails;
  and a second pull after the interpreted and after the compiled routine was chosen.
\<close>

theorem first_next_decides_witness:
  "(\<exists>st'. iternext example_host (example_object [\<lparr>m_function = 100, m_kind = kind_map\<rparr>])
             (example_state [Item 5])
         = Some ((Some 6,
                  (example_object [\<lparr>m_function = 100, m_kind = kind_map\<rparr>])
                    \<lparr>m_next := interpreted_next_fn\<rparr>), st'))
   \<and> (\<exists>st'. iternext example_host (example_object ten_maps) (example_state [Item 5])
         = Some ((Some 15, (example_object ten_maps)\<lparr>m_next := interpreted_next_fn\<rparr>), st'))
   \<and> (\<exists>r st'. iternext (example_host\<lparr>length_hint := (\<lambda>ob. None)\<rparr>)
               (example_object ten_maps) (example_state [Item 5])
         = Some ((r, (example_object ten_maps)\<lparr>m_next := interpreted_next_fn\<rparr>), st'))
   \<and> (\<exists>nf st'. iternext (example_host\<lparr>length_hint := (\<lambda>ob. Some 50000000)\<rparr>)
               (example_object ten_maps) (example_state [Item 5])
         = Some ((Some 15,
                  (example_object ten_maps)
                    \<lparr>m_compiled_next := nf, m_next := compiled_next_fn\<rparr>), st')
         \<and> m_gcc_jit_result nf = Some (compile_blocks ten_maps))
   \<and> iternext (example_host\<lparr>length_hint := (\<lambda>ob. Some 50000000), jit_ok := False\<rparr>)
         (example_object ten_maps) (example_state [Item 5])
       = Some ((None, example_object ten_maps), (example_state [Item 5])\<lparr>err := True\<rparr>)
   \<and> (\<exists>st'. iternext example_host
             ((example_object [\<lparr>m_function = 100, m_kind = kind_map\<rparr>])
                \<lparr>m_next := interpreted_next_fn\<rparr>)
             (example_state [Item 5])
         = Some ((Some 6,
                  (example_object [\<lparr>m_function = 100, m_kind = kind_map\<rparr>])
                    \<lparr>m_next := interpreted_next_fn\<rparr>), st'))
   \<and> (\<exists>nf st1 st'.
         compile example_host ten_maps (example_state []) = (Some nf, st1)
         \<and> iternext example_host
               ((example_object ten_maps)\<lparr>m_compiled_next := nf, m_next := compiled_next_fn\<rparr>)
               (example_state [Item 5])
           = Some ((Some 15,
                    (example_object ten_maps)
                      \<lparr>m_compiled_next := nf, m_next := compiled_next_fn\<rparr>), st'))"
proof -
  let ?one = "example_object [\<lparr>m_function = 100, m_kind = kind_map\<rparr>]"
  let ?ten = "example_object ten_maps"
  let ?st = "example_state [Item 5]"
  let ?Hc = "example_host\<lparr>length_hint := (\<lambda>ob. Some 50000000)\<rparr>"
  let ?Hn = "example_host\<lparr>length_hint := (\<lambda>ob. None)\<rparr>"
  let ?Hj = "example_host\<lparr>length_hint := (\<lambda>ob. Some 50000000), jit_ok := False\<rparr>"
  have call: "call1 example_host 100 = (\<lambda>x. Some (x + 1))"
    "call1 ?Hc 100 = (\<lambda>x. Some (x + 1))"
    by (simp_all add: example_host_def)
  have fu: "m_fused ?ten = \<lparr>m_steps = ten_maps, m_iter = 50\<rparr>"
    by (simp add: example_object_def)
  have len: "\<not> length (m_steps (m_fused ?ten)) < 10"
    by (simp add: example_object_def ten_maps_def)
  have first: "m_next ?ten = first_next_fn" "m_next ?one = first_next_fn"
    by (simp_all add: example_object_def)
  have one: "fst (interpreted_next example_host (m_fused ?one) ?st) = Some 6"
    by (simp add: example_object_def example_host_def example_state_def pull_eval
        Py_INCREF_def Py_DECREF_def)
  have ten: "fst (interpreted_next example_host (m_fused ?ten) ?st) = Some 15"
    unfolding fu by (rule ten_maps_pull) (simp_all add: example_state_def call)
  have "length (m_steps (m_fused ?one)) < 10" by (simp add: example_object_def)
  with first one first_next_decides [where self = ?one and H = example_host and st = ?st]
  have c1: "\<exists>st'. iternext example_host ?one ?st
      = Some ((Some 6, ?one\<lparr>m_next := interpreted_next_fn\<rparr>), st')"
    by simp
  have "length_hint example_host (m_iter (m_fused ?ten)) = Some 4 \<and> (4 :: int) < 50000000"
    by (simp add: example_host_def)
  with first len ten
    first_next_decides [where self = ?ten and H = example_host and st = ?st and n = 4]
  have c2: "\<exists>st'. iternext example_host ?ten ?st
      = Some ((Some 15, ?ten\<lparr>m_next := interpreted_next_fn\<rparr>), st')"
    by simp
  have "length_hint ?Hn (m_iter (m_fused ?ten)) = None" by simp
  with first len first_next_decides [where self = ?ten and H = ?Hn and st = ?st]
  have c3: "\<exists>r st'. iternext ?Hn ?ten ?st
      = Some ((r, ?ten\<lparr>m_next := interpreted_next_fn\<rparr>), st')"
    by simp
  have "length_hint ?Hc (m_iter (m_fused ?ten)) = Some 50000000
      \<and> \<not> (50000000 :: int) < 50000000 \<and> jit_ok ?Hc"
    by (simp add: example_host_def)
  with first len
    first_next_decides [where self = ?ten and H = ?Hc and st = ?st and n = 50000000]
  obtain nf st1 where
    c: "compile ?Hc (m_steps (m_fused ?ten)) ?st = (Some nf, st1)" and
    i: "iternext ?Hc ?ten ?st =
          Some ((fst (interpreted_next ?Hc (m_fused ?ten) st1),
                 ?ten\<lparr>m_compiled_next := nf, m_next := compiled_next_fn\<rparr>),
                snd (interpreted_next ?Hc (m_fused ?ten) st1))"
    by blast
  from c have "iters st1 = iters ?st" by (rule compile_iters)
  then have "iters st1 50 = [Item 5]" by (simp add: example_state_def)
  then have "fst (interpreted_next ?Hc (m_fused ?ten) st1) = Some 15"
    unfolding fu using call(2) by (rule ten_maps_pull)
  moreover from c have "m_gcc_jit_result nf = Some (compile_blocks ten_maps)"
    using compile_Some [OF c] by (simp add: fu)
  ultimately have c4: "\<exists>nf st'. iternext ?Hc ?ten ?st
      = Some ((Some 15, ?ten\<lparr>m_compiled_next := nf, m_next := compiled_next_fn\<rparr>), st')
      \<and> m_gcc_jit_result nf = Some (compile_blocks ten_maps)"
    using i by auto
  have "length_hint ?Hj (m_iter (m_fused ?ten)) = Some 50000000
      \<and> \<not> (50000000 :: int) < 50000000 \<and> \<not> jit_ok ?Hj"
    by simp
  with first len
    first_next_decides [where self = ?ten and H = ?Hj and st = ?st and n = 50000000]
  have c5: "iternext ?Hj ?ten ?st = Some ((None, ?ten), ?st\<lparr>err := True\<rparr>)"
    by simp
  let ?one' = "?one\<lparr>m_next := interpreted_next_fn\<rparr>"
  have "m_next ?one' = interpreted_next_fn" by simp
  moreover have "fst (interpreted_next example_host (m_fused ?one') ?st) = Some 6"
    using one by simp
  ultimately have c6: "\<exists>st'. iternext example_host ?one' ?st = Some ((Some 6, ?one'), st')"
    using first_next_decides [where self = ?one' and H = example_host and st = ?st]
    by simp
  have "jit_ok example_host" by (simp add: example_host_def)
  then obtain nf' st1' where
    c': "compile example_host ten_maps (example_state []) = (Some nf', st1')"
    using compile_jit_ok by blast
  let ?ten' = "?ten\<lparr>m_compiled_next := nf', m_next := compiled_next_fn\<rparr>"
  have "m_next ?ten' = compiled_next_fn
      \<and> compile example_host (m_steps (m_fused ?ten')) (example_state [])
          = (Some (m_compiled_next ?ten'), st1')"
    using c' by (simp add: example_object_def)
  moreover have "fst (interpreted_next example_host (m_fused ?ten') ?st) = Some 15"
    using ten by simp
  ultimately have "\<exists>st'. iternext example_host ?ten' ?st = Some ((Some 15, ?ten'), st')"
    using first_next_decides [where self = ?ten' and H = example_host and st = ?st
        and ?H0.0 = example_host and ?st0.0 = "example_state []" and st0' = st1']
    by simp
  with c' have c7: "\<exists>nf st1 st'.
         compile example_host ten_maps (example_state []) = (Some nf, st1)
         \<and> iternext example_host
               (?ten\<lparr>m_compiled_next := nf, m_next := compiled_next_fn\<rparr>) ?st
           = Some ((Some 15, ?ten\<lparr>m_compiled_next := nf, m_next := compiled_next_fn\<rparr>), st')"
    by blast
  from c1 c2 c3 c4 c5 c6 c7 show ?thesis by blast
qed

end
